theory Spec2Isabelle
  imports Complex_Main "HOL-Library.Log_Nat"
begin

section \<open>The button network model\<close>

text \<open>
  The notebook \<^verbatim>\<open>notebooks/agentpy_button_network.ipynb\<close> defines one class,
  \<^verbatim>\<open>ButtonModel(ap.Model)\<close>, with the methods \<^verbatim>\<open>setup\<close>, \<^verbatim>\<open>update\<close>
  and \<^verbatim>\<open>step\<close>. They call into agentpy (\<^verbatim>\<open>ap.Network\<close>, \<^verbatim>\<open>ap.AgentList\<close>,
  \<^verbatim>\<open>AgentList.random\<close>, \<^verbatim>\<open>Model.record\<close>, \<^verbatim>\<open>Model.run\<close>) and networkx
  (\<^verbatim>\<open>Graph.add_node\<close>, \<^verbatim>\<open>Graph.add_edge\<close>, \<^verbatim>\<open>connected_components\<close>).
  The library calls are embedded by what the libraries do; the three methods are
  embedded line by line.

  Conventions of the embedding:
  \<^item> a node (an \<^verbatim>\<open>AgentNode\<close> object, hashed by identity) is a natural number, the
    index of its creation;
  \<^item> the parameter \<^verbatim>\<open>speed\<close> is a Python float, an IEEE double: a finite value (the
    rational it denotes), an infinity or a NaN; the product \<^verbatim>\<open>n * speed\<close> is the
    double product, rounded to nearest with ties to even, and \<^verbatim>\<open>int\<close> of it raises
    for an infinity or a NaN;
  \<^item> the two recorded ratios are quotients of two integers; Python stores the double
    nearest to the quotient, the embedding keeps the quotient itself (a \<open>rat\<close>);
  \<^item> an exception is the \<open>Inl\<close> of a sum;
  \<^item> the random generator \<^verbatim>\<open>model.random\<close> is the stream of raw numbers it will
    return, a function \<open>nat \<Rightarrow> nat\<close> kept in the state; a draw reads from its front
    and shifts it.
\<close>

datatype error = ValueError | ZeroDivisionError | KeyError | OverflowError

subsection \<open>networkx: the class Graph\<close>

text \<open>
  \<^verbatim>\<open>nx.Graph\<close> keeps two dictionaries with the same keys: \<^verbatim>\<open>_node\<close> (node to
  attributes) and \<^verbatim>\<open>_adj\<close> (node to a dictionary keyed by its neighbours). The
  attribute dictionaries are never read by the model and are left out: \<open>node_keys\<close>
  are the keys of \<^verbatim>\<open>_node\<close> in insertion order, \<open>adj g u\<close> the keys of
  \<^verbatim>\<open>_adj[u]\<close>. Being the key set of a dictionary, \<open>adj g u\<close> holds a neighbour at
  most once: \<^verbatim>\<open>nx.Graph\<close> is a simple graph (self-loops allowed, parallel edges not).
\<close>

record graph =
  node_keys :: "nat list"
  adj :: "nat \<Rightarrow> nat set"

definition empty_graph :: graph where
  "empty_graph = \<lparr>node_keys = [], adj = (\<lambda>_. {})\<rparr>"

text \<open>
  \<^verbatim>\<open>
  def add_node(self, node_for_adding, **attr):
      if node_for_adding not in self._node:
          self._adj[node_for_adding] = self.adjlist_inner_dict_factory()
          self._node[node_for_adding] = attr_dict
      else:
          self._node[node_for_adding].update(attr)
  \<close>
\<close>

definition add_node :: "graph \<Rightarrow> nat \<Rightarrow> graph" where
  "add_node g v =
     (if v \<in> set (node_keys g) then g
      else g\<lparr>node_keys := node_keys g @ [v], adj := (adj g)(v := {})\<rparr>)"

text \<open>
  \<^verbatim>\<open>
  def add_edge(self, u_of_edge, v_of_edge, **attr):
      u, v = u_of_edge, v_of_edge
      if u not in self._node: (add u as add_node does)
      if v not in self._node: (add v as add_node does)
      datadict = self._adj[u].get(v, self.edge_attr_dict_factory())
      datadict.update(attr)
      self._adj[u][v] = datadict
      self._adj[v][u] = datadict
  \<close>
\<close>

definition add_edge :: "graph \<Rightarrow> nat \<Rightarrow> nat \<Rightarrow> graph" where
  "add_edge g u v =
     (let g1 = add_node g u;
          g2 = add_node g1 v;
          a1 = (adj g2)(u := insert v (adj g2 u));
          a2 = a1(v := insert u (a1 v))
      in g2\<lparr>adj := a2\<rparr>)"

text \<open>
  \<^verbatim>\<open>G.degree\<close> counts a self-loop twice, and \<^verbatim>\<open>G.number_of_edges()\<close> is half the
  sum of the degrees. \<^verbatim>\<open>G.has_edge(u, v)\<close> is \<^verbatim>\<open>v in G._adj[u]\<close>, and false for a
  \<open>u\<close> that is not a node; a graph has a self-loop when some node is its own
  neighbour.
\<close>

definition degree :: "graph \<Rightarrow> nat \<Rightarrow> nat" where
  "degree g v = card (adj g v) + (if v \<in> adj g v then 1 else 0)"

definition number_of_edges :: "graph \<Rightarrow> nat" where
  "number_of_edges g = sum_list (map (degree g) (node_keys g)) div 2"

definition has_edge :: "graph \<Rightarrow> nat \<Rightarrow> nat \<Rightarrow> bool" where
  "has_edge g u v = (u \<in> set (node_keys g) \<and> v \<in> adj g u)"

definition has_selfloop :: "graph \<Rightarrow> bool" where
  "has_selfloop g = (\<exists>v \<in> set (node_keys g). v \<in> adj g v)"

subsection \<open>networkx: connected components\<close>

text \<open>
  \<^verbatim>\<open>
  def _plain_bfs(G, source):
      G_adj = G.adj
      seen = set()
      nextlevel = {source}
      while nextlevel:
          thislevel = nextlevel
          nextlevel = set()
          for v in thislevel:
              if v not in seen:
                  seen.add(v)
                  nextlevel.update(G_adj[v])
      return seen
  \<close>
  One round of the \<^verbatim>\<open>while\<close> loop is one call of \<open>plain_bfs\<close>: the nodes of
  \<open>thislevel\<close> that are new are marked and their neighbours collected.
  \<^verbatim>\<open>G_adj[v]\<close> raises \<^verbatim>\<open>KeyError\<close> for a \<open>v\<close> that is not a node.
\<close>

function plain_bfs :: "graph \<Rightarrow> nat set \<Rightarrow> nat set \<Rightarrow> error + nat set" where
  "plain_bfs g seen nextlevel =
     (if nextlevel = {} then Inr seen
      else if \<not> nextlevel - seen \<subseteq> set (node_keys g) then Inl KeyError
      else plain_bfs g (seen \<union> nextlevel) (\<Union>v \<in> nextlevel - seen. adj g v))"
  by pat_completeness auto
termination
proof (relation "measure (\<lambda>(g, seen, nextlevel).
         2 * card (set (node_keys g) - seen) + (if nextlevel = {} then 0 else 1))")
  show "wf (measure (\<lambda>(g, seen, nextlevel).
         2 * card (set (node_keys g) - seen) + (if nextlevel = {} then 0 else 1)))"
    by simp
next
  fix g :: graph and seen nextlevel :: "nat set"
  assume ne: "nextlevel \<noteq> {}" and sub: "\<not> \<not> nextlevel - seen \<subseteq> set (node_keys g)"
  let ?N = "set (node_keys g)"
  show "((g, seen \<union> nextlevel, \<Union>v \<in> nextlevel - seen. adj g v), (g, seen, nextlevel))
        \<in> measure (\<lambda>(g, seen, nextlevel).
             2 * card (set (node_keys g) - seen) + (if nextlevel = {} then 0 else 1))"
  proof (cases "nextlevel \<subseteq> seen")
    case True
    then have e: "nextlevel - seen = {}" and "seen \<union> nextlevel = seen" by auto
    with ne show ?thesis by (simp add: e)
  next
    case False
    then obtain x where x: "x \<in> nextlevel" "x \<notin> seen" by auto
    with sub have "x \<in> ?N" by auto
    with x have "?N - (seen \<union> nextlevel) \<subset> ?N - seen" by auto
    then have "card (?N - (seen \<union> nextlevel)) < card (?N - seen)"
      by (intro psubset_card_mono) simp_all
    with ne show ?thesis by simp
  qed
qed

declare plain_bfs.simps [simp del]

text \<open>
  \<^verbatim>\<open>
  def connected_components(G):
      seen = set()
      for v in G:
          if v not in seen:
              c = _plain_bfs(G, v)
              seen.update(c)
              yield c
  \<close>
\<close>

fun components_loop :: "graph \<Rightarrow> nat list \<Rightarrow> nat set \<Rightarrow> error + nat set list" where
  "components_loop g [] seen = Inr []"
| "components_loop g (v # vs) seen =
     (if v \<in> seen then components_loop g vs seen
      else case plain_bfs g {} {v} of
             Inl e \<Rightarrow> Inl e
           | Inr c \<Rightarrow>
               (case components_loop g vs (seen \<union> c) of
                  Inl e \<Rightarrow> Inl e
                | Inr cs \<Rightarrow> Inr (c # cs)))"

definition connected_components :: "graph \<Rightarrow> error + nat set list" where
  "connected_components g = components_loop g (node_keys g) {}"

subsection \<open>Python built-ins\<close>

text \<open>
  A Python float is an IEEE 754 double. A finite double is the rational number it
  denotes; the two zeros are not told apart (\<^verbatim>\<open>int\<close> maps both to 0).
\<close>

datatype pyfloat = Finite rat | PInf | NInf | NaN

text \<open>
  Rounding a rational to the nearest double. \<open>pow2 e\<close> is \<open>2\<close> to the power \<open>e\<close>,
  \<open>floor_log2 x\<close> the exponent \<open>e\<close> with \<open>2^e \<le> x < 2^(e + 1)\<close> of a positive
  \<open>x\<close>. A double has 53 significant bits, so the doubles around a number with exponent
  \<open>e\<close> are the multiples of \<open>2^(e - 52)\<close>, and of \<open>2^(-1074)\<close> in the subnormal range.
  The number is rounded to the nearest multiple, a tie to the one with the even
  multiplier; a result of magnitude \<open>2^1024\<close> or more is an infinity.
\<close>

definition pow2 :: "int \<Rightarrow> rat" where
  "pow2 e = (if 0 \<le> e then 2 ^ nat e else 1 / 2 ^ nat (- e))"

definition floor_log2 :: "rat \<Rightarrow> int" where
  "floor_log2 x = (if 1 \<le> x then bitlen \<lfloor>x\<rfloor> - 1 else - bitlen (\<lceil>1 / x\<rceil> - 1))"

definition round_half_even :: "rat \<Rightarrow> int" where
  "round_half_even y =
     (let f = \<lfloor>y\<rfloor>; d = y - of_int f in
      if d < 1 / 2 then f
      else if 1 / 2 < d then f + 1
      else if even f then f else f + 1)"

definition round_double :: "rat \<Rightarrow> pyfloat" where
  "round_double x =
     (if x = 0 then Finite 0
      else
        let e = floor_log2 \<bar>x\<bar>;
            q = pow2 (max (e - 52) (- 1074));
            r = q * of_int (round_half_even (x / q))
        in if 2 ^ 1024 \<le> \<bar>r\<bar> then (if 0 < x then PInf else NInf) else Finite r)"

text \<open>A rational is a double when rounding leaves it as it is.\<close>

definition is_double :: "rat \<Rightarrow> bool" where
  "is_double x = (round_double x = Finite x)"

text \<open>
  \<^verbatim>\<open>n * speed\<close> with an integer \<open>n\<close> and a float \<^verbatim>\<open>speed\<close> converts \<open>n\<close> to a
  double first (correctly rounded; \<^verbatim>\<open>OverflowError\<close> when \<open>n\<close> is too large for a
  double) and then multiplies two doubles.
\<close>

definition int_to_float :: "int \<Rightarrow> error + pyfloat" where
  "int_to_float n =
     (case round_double (of_int n) of Finite r \<Rightarrow> Inr (Finite r) | _ \<Rightarrow> Inl OverflowError)"

fun float_mul :: "pyfloat \<Rightarrow> pyfloat \<Rightarrow> pyfloat" where
  "float_mul (Finite a) (Finite b) = round_double (a * b)"
| "float_mul (Finite a) PInf = (if 0 < a then PInf else if a < 0 then NInf else NaN)"
| "float_mul (Finite a) NInf = (if 0 < a then NInf else if a < 0 then PInf else NaN)"
| "float_mul PInf (Finite b) = (if 0 < b then PInf else if b < 0 then NInf else NaN)"
| "float_mul NInf (Finite b) = (if 0 < b then NInf else if b < 0 then PInf else NaN)"
| "float_mul PInf PInf = PInf"
| "float_mul PInf NInf = NInf"
| "float_mul NInf PInf = NInf"
| "float_mul NInf NInf = PInf"
| "float_mul NaN y = NaN"
| "float_mul x NaN = NaN"

text \<open>
  \<^verbatim>\<open>int(x)\<close> of a float truncates towards zero, and raises \<^verbatim>\<open>OverflowError\<close> for an
  infinity and \<^verbatim>\<open>ValueError\<close> for a NaN; \<^verbatim>\<open>range(k)\<close> is empty for \<open>k \<le> 0\<close>.
  \<open>py_ge0 x\<close> is the comparison \<^verbatim>\<open>x >= 0\<close>.
\<close>

fun py_int :: "pyfloat \<Rightarrow> error + int" where
  "py_int (Finite x) = Inr (if 0 \<le> x then \<lfloor>x\<rfloor> else \<lceil>x\<rceil>)"
| "py_int PInf = Inl OverflowError"
| "py_int NInf = Inl OverflowError"
| "py_int NaN = Inl ValueError"

fun py_ge0 :: "pyfloat \<Rightarrow> bool" where
  "py_ge0 (Finite x) = (0 \<le> x)"
| "py_ge0 PInf = True"
| "py_ge0 NInf = False"
| "py_ge0 NaN = False"

text \<open>\<open>int_of_product n speed\<close> is the expression \<^verbatim>\<open>int(n * speed)\<close>.\<close>

definition int_of_product :: "int \<Rightarrow> pyfloat \<Rightarrow> error + int" where
  "int_of_product n speed =
     (case int_to_float n of Inl e \<Rightarrow> Inl e | Inr x \<Rightarrow> py_int (float_mul x speed))"

text \<open>\<^verbatim>\<open>max\<close> of an empty list raises \<^verbatim>\<open>ValueError\<close>.\<close>

fun py_max :: "nat list \<Rightarrow> error + nat" where
  "py_max [] = Inl ValueError"
| "py_max (x # xs) = Inr (fold max xs x)"

text \<open>
  \<^verbatim>\<open>a / b\<close> on integers: true division, \<^verbatim>\<open>ZeroDivisionError\<close> for \<open>b = 0\<close>. The
  result is the exact quotient, of which Python keeps the nearest double.
\<close>

definition py_truediv :: "int \<Rightarrow> int \<Rightarrow> error + rat" where
  "py_truediv a b = (if b = 0 then Inl ZeroDivisionError else Inr (of_int a / of_int b))"

subsection \<open>agentpy: the model object\<close>

text \<open>
  The attributes of a \<^verbatim>\<open>ButtonModel\<close> object: the parameters \<^verbatim>\<open>p.n\<close> and
  \<^verbatim>\<open>p.speed\<close>, the time step \<^verbatim>\<open>t\<close> (\<open>model_t\<close>), the graph of the network \<^verbatim>\<open>buttons\<close>,
  the agent list (\<open>agents\<close> holds, agent by agent, the attribute \<^verbatim>\<open>node\<close>), the
  counter \<^verbatim>\<open>threads\<close>, the two recorded series of \<^verbatim>\<open>log\<close> and the random
  generator \<^verbatim>\<open>random\<close> (\<open>rng\<close>). \<^verbatim>\<open>record\<close> stores one value per variable
  and time step, and \<^verbatim>\<open>update\<close> runs once per time step: each series is the list
  of the values recorded so far, oldest first.
\<close>

record model =
  p_n :: int
  p_speed :: pyfloat
  model_t :: nat
  buttons :: graph
  agents :: "nat list"
  threads :: int
  max_cluster_size_log :: "rat list"
  threads_to_button_log :: "rat list"
  rng :: "nat \<Rightarrow> nat"

definition new_model :: "int \<Rightarrow> pyfloat \<Rightarrow> (nat \<Rightarrow> nat) \<Rightarrow> model" where
  "new_model n speed rnd =
     \<lparr>p_n = n, p_speed = speed, model_t = 0, buttons = empty_graph, agents = [], threads = 0,
      max_cluster_size_log = [], threads_to_button_log = [], rng = rnd\<rparr>"

text \<open>
  \<^verbatim>\<open>Network.add_agents(agents)\<close> without positions creates one new node per agent
  (\<^verbatim>\<open>Network.add_node\<close> makes a fresh \<^verbatim>\<open>AgentNode\<close> and hands it to
  \<^verbatim>\<open>graph.add_node\<close>); the second argument counts the agents still to be placed.
\<close>

fun add_agents :: "graph \<Rightarrow> nat \<Rightarrow> graph" where
  "add_agents g 0 = g"
| "add_agents g (Suc k) = add_agents (add_node g (length (node_keys g))) k"

text \<open>
  \<^verbatim>\<open>AgentList.random(n=1, replace=False)\<close>, called as \<^verbatim>\<open>random(2)\<close>, is
  \<^verbatim>\<open>model.random.sample(agents, k=2)\<close>: sampling without replacement, which raises
  \<^verbatim>\<open>ValueError\<close> for a list of fewer than two agents and else picks
  \<^verbatim>\<open>
      pool = list(population)
      for i in range(k):
          j = randbelow(n - i)
          result[i] = pool[j]
          pool[j] = pool[n - i - 1]
  \<close>
  (for a long list \<^verbatim>\<open>sample\<close> draws positions until it has \<open>k\<close> different ones
  instead; either way the result is the agents at two different positions, and the
  embedding takes the pool for every length). \<open>randbelow k\<close> is the next raw number
  modulo \<open>k\<close>. The result of \<open>random2\<close> is the pair of the \<^verbatim>\<open>node\<close> attributes of
  the two agents picked, with the state whose generator has moved on.
\<close>

definition random2 :: "model \<Rightarrow> error + ((nat \<times> nat) \<times> model)" where
  "random2 m =
     (let pool = agents m; n = length pool in
      if n < 2 then Inl ValueError
      else
        let j0 = rng m 0 mod n;
            pool1 = pool[j0 := pool ! (n - 1)];
            j1 = rng m 1 mod (n - 1)
        in Inr ((pool ! j0, pool1 ! j1), m\<lparr>rng := (\<lambda>i. rng m (i + 2))\<rparr>))"

subsection \<open>ButtonModel\<close>

text \<open>
  The method \<^verbatim>\<open>setup\<close> is \<open>setup_model\<close> here.
  \<^verbatim>\<open>
  def setup(self):
      self.buttons = ap.Network(self)
      self.agents = ap.AgentList(self, self.p.n)
      self.buttons.add_agents(self.agents)
      self.agents.node = self.buttons.nodes
      self.threads = 0
  \<close>
  \<^verbatim>\<open>ap.Network(model)\<close> with no graph given starts from an empty \<^verbatim>\<open>nx.Graph()\<close>.
  The assignment of \<^verbatim>\<open>buttons.nodes\<close> to \<^verbatim>\<open>agents.node\<close> pairs agents and nodes
  in order (a \<^verbatim>\<open>zip\<close>).
\<close>

definition setup_model :: "model \<Rightarrow> model" where
  "setup_model m =
     (let k = nat (p_n m);
          g = add_agents empty_graph k
      in m\<lparr>buttons := g, agents := map snd (zip [0..<k] (node_keys g)), threads := 0\<rparr>)"

text \<open>
  \<^verbatim>\<open>
  def update(self):
      clusters = nx.connected_components(self.buttons.graph)
      max_cluster_size = max([len(g) for g in clusters]) / self.p.n
      self.record('max_cluster_size', max_cluster_size)
      self.record('threads_to_button', self.threads / self.p.n)
  \<close>
\<close>

definition update :: "model \<Rightarrow> error + model" where
  "update m =
     (case connected_components (buttons m) of
        Inl e \<Rightarrow> Inl e
      | Inr clusters \<Rightarrow>
     (case py_max (map card clusters) of
        Inl e \<Rightarrow> Inl e
      | Inr largest \<Rightarrow>
     (case py_truediv (int largest) (p_n m) of
        Inl e \<Rightarrow> Inl e
      | Inr max_cluster_size \<Rightarrow>
     (case py_truediv (threads m) (p_n m) of
        Inl e \<Rightarrow> Inl e
      | Inr ratio \<Rightarrow>
          Inr (m\<lparr>max_cluster_size_log := max_cluster_size_log m @ [max_cluster_size],
                 threads_to_button_log := threads_to_button_log m @ [ratio]\<rparr>)))))"

text \<open>
  \<^verbatim>\<open>
  def step(self):
      for _ in range(int(self.p.n * self.p.speed)):
          self.buttons.graph.add_edge(*self.agents.random(2).node)
          self.threads += 1
  \<close>
  \<open>loop_bound\<close> is the argument of \<^verbatim>\<open>range\<close>, computed once before the loop, and
  \<open>step_loop k\<close> the loop with \<open>k\<close> iterations left.
\<close>

fun step_loop :: "nat \<Rightarrow> model \<Rightarrow> error + model" where
  "step_loop 0 m = Inr m"
| "step_loop (Suc k) m =
     (case random2 m of
        Inl e \<Rightarrow> Inl e
      | Inr ((u, v), m1) \<Rightarrow>
          step_loop k (m1\<lparr>buttons := add_edge (buttons m1) u v, threads := threads m1 + 1\<rparr>))"

definition loop_bound :: "model \<Rightarrow> error + int" where
  "loop_bound m = int_of_product (p_n m) (p_speed m)"

definition step :: "model \<Rightarrow> error + model" where
  "step m = (case loop_bound m of Inl e \<Rightarrow> Inl e | Inr b \<Rightarrow> step_loop (nat b) m)"

subsection \<open>agentpy: running a simulation\<close>

text \<open>
  \<^verbatim>\<open>Model.run\<close> calls \<^verbatim>\<open>sim_setup\<close> (\<^verbatim>\<open>setup\<close>, then \<^verbatim>\<open>update\<close> at
  \<open>t = 0\<close>) and then \<^verbatim>\<open>sim_step\<close> (\<^verbatim>\<open>t += 1\<close>, \<^verbatim>\<open>step\<close>, \<^verbatim>\<open>update\<close>)
  until \<open>t\<close> reaches the parameter \<^verbatim>\<open>steps\<close>.
\<close>

definition sim_setup :: "model \<Rightarrow> error + model" where
  "sim_setup m = update (setup_model (m\<lparr>model_t := 0\<rparr>))"

definition sim_step :: "model \<Rightarrow> error + model" where
  "sim_step m = (case step (m\<lparr>model_t := model_t m + 1\<rparr>) of Inl e \<Rightarrow> Inl e | Inr m1 \<Rightarrow> update m1)"

fun sim_steps :: "nat \<Rightarrow> model \<Rightarrow> error + model" where
  "sim_steps 0 m = Inr m"
| "sim_steps (Suc k) m = (case sim_step m of Inl e \<Rightarrow> Inl e | Inr m1 \<Rightarrow> sim_steps k m1)"

definition run :: "int \<Rightarrow> pyfloat \<Rightarrow> (nat \<Rightarrow> nat) \<Rightarrow> nat \<Rightarrow> error + model" where
  "run n speed rnd steps =
     (case sim_setup (new_model n speed rnd) of Inl e \<Rightarrow> Inl e | Inr m \<Rightarrow> sim_steps steps m)"

section \<open>Invariants\<close>

text \<open>
  The predicates and the auxiliary function of the proofs. A graph is well formed when
  its node keys are distinct, every neighbour is a node and adjacency is symmetric, as
  \<^verbatim>\<open>nx.Graph\<close> keeps it. \<open>largest_cluster\<close> is the numerator of the first value
  \<^verbatim>\<open>update\<close> records. \<open>model_inv\<close> describes the states of a run after
  \<^verbatim>\<open>setup\<close>: \<open>n\<close> nodes, one per agent, in a well-formed graph. A set is
  closed under a graph when it contains the neighbours of its members.
  \<open>iterations\<close> is the number of times the loop of \<^verbatim>\<open>step\<close> runs when its bound
  is computed without an error.
\<close>

definition wf_graph :: "graph \<Rightarrow> bool" where
  "wf_graph g =
     (distinct (node_keys g) \<and>
      (\<forall>v \<in> set (node_keys g). adj g v \<subseteq> set (node_keys g)) \<and>
      (\<forall>u v. v \<in> adj g u \<longrightarrow> u \<in> adj g v))"

definition largest_cluster :: "graph \<Rightarrow> error + nat" where
  "largest_cluster g =
     (case connected_components g of Inl e \<Rightarrow> Inl e | Inr cs \<Rightarrow> py_max (map card cs))"

definition model_inv :: "model \<Rightarrow> bool" where
  "model_inv m =
     (1 \<le> p_n m \<and> node_keys (buttons m) = [0..<nat (p_n m)] \<and>
      agents m = [0..<nat (p_n m)] \<and> wf_graph (buttons m))"

definition closed_under :: "graph \<Rightarrow> nat set \<Rightarrow> bool" where
  "closed_under g C = (\<forall>x \<in> C. adj g x \<subseteq> C)"

definition iterations :: "model \<Rightarrow> nat" where
  "iterations m = (case loop_bound m of Inl e \<Rightarrow> 0 | Inr b \<Rightarrow> nat b)"

section \<open>Properties of the library functions\<close>

lemma add_node_fresh:
  "node_keys g = [0..<j] \<Longrightarrow> node_keys (add_node g (length (node_keys g))) = [0..<Suc j]"
  by (simp add: add_node_def)

lemma add_node_adj_empty:
  "adj g = (\<lambda>_. {}) \<Longrightarrow> adj (add_node g v) = (\<lambda>_. {})"
  by (auto simp: add_node_def fun_eq_iff)

lemma add_agents_node_keys:
  "node_keys g = [0..<j] \<Longrightarrow> node_keys (add_agents g k) = [0..<j + k]"
proof (induction k arbitrary: g j)
  case 0
  then show ?case by simp
next
  case (Suc k)
  from Suc.IH [OF add_node_fresh [OF Suc.prems]] show ?case by simp
qed

lemma add_agents_adj:
  "adj g = (\<lambda>_. {}) \<Longrightarrow> adj (add_agents g k) = (\<lambda>_. {})"
proof (induction k arbitrary: g)
  case 0
  then show ?case by simp
next
  case (Suc k)
  from Suc.IH [OF add_node_adj_empty [OF Suc.prems]] show ?case by simp
qed

lemma add_edge_node_keys:
  "u \<in> set (node_keys g) \<Longrightarrow> v \<in> set (node_keys g) \<Longrightarrow> node_keys (add_edge g u v) = node_keys g"
  by (simp add: add_edge_def add_node_def)

lemma add_edge_adj:
  "u \<in> set (node_keys g) \<Longrightarrow> v \<in> set (node_keys g) \<Longrightarrow>
   adj (add_edge g u v) = (\<lambda>x. adj g x \<union> (if x = u then {v} else {}) \<union> (if x = v then {u} else {}))"
  by (auto simp: add_edge_def add_node_def fun_eq_iff)

lemma add_edge_wf:
  "wf_graph g \<Longrightarrow> u \<in> set (node_keys g) \<Longrightarrow> v \<in> set (node_keys g) \<Longrightarrow> wf_graph (add_edge g u v)"
  by (auto simp: wf_graph_def add_edge_node_keys add_edge_adj split: if_splits)

lemma plain_bfs_contains:
  "plain_bfs g seen nextlevel = Inr R \<Longrightarrow> seen \<union> nextlevel \<subseteq> R"
proof (induction g seen nextlevel rule: plain_bfs.induct)
  case (1 g seen nextlevel)
  show ?case
  proof (cases "nextlevel = {}")
    case True
    with "1.prems" show ?thesis by (simp add: plain_bfs.simps)
  next
    case False
    with "1.prems" have sub: "nextlevel - seen \<subseteq> set (node_keys g)"
      by (auto simp: plain_bfs.simps [of g seen nextlevel] split: if_splits)
    with False "1.prems"
    have "plain_bfs g (seen \<union> nextlevel) (\<Union>v \<in> nextlevel - seen. adj g v) = Inr R"
      by (simp add: plain_bfs.simps [of g seen nextlevel])
    from "1.IH" [OF False _ this] sub show ?thesis by auto
  qed
qed

lemma plain_bfs_closed:
  "plain_bfs g seen nextlevel = Inr R \<Longrightarrow> \<forall>x \<in> seen. adj g x \<subseteq> seen \<union> nextlevel \<Longrightarrow>
   closed_under g R"
proof (induction g seen nextlevel rule: plain_bfs.induct)
  case (1 g seen nextlevel)
  show ?case
  proof (cases "nextlevel = {}")
    case True
    with "1.prems" show ?thesis by (simp add: plain_bfs.simps closed_under_def)
  next
    case False
    with "1.prems" have sub: "nextlevel - seen \<subseteq> set (node_keys g)"
      by (auto simp: plain_bfs.simps [of g seen nextlevel] split: if_splits)
    with False "1.prems"
    have run: "plain_bfs g (seen \<union> nextlevel) (\<Union>v \<in> nextlevel - seen. adj g v) = Inr R"
      by (simp add: plain_bfs.simps [of g seen nextlevel])
    have "\<forall>x \<in> seen \<union> nextlevel. adj g x \<subseteq> (seen \<union> nextlevel) \<union> (\<Union>v \<in> nextlevel - seen. adj g v)"
      using "1.prems"(2) by blast
    from "1.IH" [OF False _ run this] sub show ?thesis by auto
  qed
qed

lemma plain_bfs_least:
  "plain_bfs g seen nextlevel = Inr R \<Longrightarrow> closed_under g C \<Longrightarrow> seen \<union> nextlevel \<subseteq> C \<Longrightarrow> R \<subseteq> C"
proof (induction g seen nextlevel rule: plain_bfs.induct)
  case (1 g seen nextlevel)
  show ?case
  proof (cases "nextlevel = {}")
    case True
    with "1.prems" show ?thesis by (simp add: plain_bfs.simps)
  next
    case False
    with "1.prems" have sub: "nextlevel - seen \<subseteq> set (node_keys g)"
      by (auto simp: plain_bfs.simps [of g seen nextlevel] split: if_splits)
    with False "1.prems"
    have run: "plain_bfs g (seen \<union> nextlevel) (\<Union>v \<in> nextlevel - seen. adj g v) = Inr R"
      by (simp add: plain_bfs.simps [of g seen nextlevel])
    have "(seen \<union> nextlevel) \<union> (\<Union>v \<in> nextlevel - seen. adj g v) \<subseteq> C"
      using "1.prems"(2,3) unfolding closed_under_def by blast
    from "1.IH" [OF False _ run "1.prems"(2) this] sub show ?thesis by auto
  qed
qed

lemma plain_bfs_total:
  "wf_graph g \<Longrightarrow> seen \<union> nextlevel \<subseteq> set (node_keys g) \<Longrightarrow> \<exists>R. plain_bfs g seen nextlevel = Inr R"
proof (induction g seen nextlevel rule: plain_bfs.induct)
  case (1 g seen nextlevel)
  show ?case
  proof (cases "nextlevel = {}")
    case True
    then show ?thesis by (simp add: plain_bfs.simps)
  next
    case False
    from "1.prems" have sub: "nextlevel - seen \<subseteq> set (node_keys g)" by auto
    have "(seen \<union> nextlevel) \<union> (\<Union>v \<in> nextlevel - seen. adj g v) \<subseteq> set (node_keys g)"
      using "1.prems" unfolding wf_graph_def by blast
    from "1.IH" [OF False _ "1.prems"(1) this] sub
    obtain R where "plain_bfs g (seen \<union> nextlevel) (\<Union>v \<in> nextlevel - seen. adj g v) = Inr R"
      by auto
    with False sub show ?thesis by (simp add: plain_bfs.simps [of g seen nextlevel])
  qed
qed


lemma components_loop_total:
  "wf_graph g \<Longrightarrow> set vs \<subseteq> set (node_keys g) \<Longrightarrow> \<exists>cs. components_loop g vs seen = Inr cs"
proof (induction vs arbitrary: seen)
  case Nil
  then show ?case by simp
next
  case (Cons v vs)
  then have "{} \<union> {v} \<subseteq> set (node_keys g)" by simp
  from plain_bfs_total [OF Cons.prems(1) this] obtain c where c: "plain_bfs g {} {v} = Inr c" ..
  from Cons.prems have vs: "set vs \<subseteq> set (node_keys g)" by simp
  from Cons.IH [OF Cons.prems(1) vs, of seen] Cons.IH [OF Cons.prems(1) vs, of "seen \<union> c"] c
  show ?case by auto
qed

lemma components_loop_origin:
  "components_loop g vs seen = Inr cs \<Longrightarrow> c \<in> set cs \<Longrightarrow>
   \<exists>v \<in> set vs. plain_bfs g {} {v} = Inr c"
proof (induction vs arbitrary: seen cs)
  case Nil
  then show ?case by simp
next
  case (Cons v vs)
  show ?case
  proof (cases "v \<in> seen")
    case True
    with Cons.prems have "components_loop g vs seen = Inr cs" by simp
    from Cons.IH [OF this Cons.prems(2)] show ?thesis by auto
  next
    case False
    with Cons.prems(1) obtain c0 cs0 where c0: "plain_bfs g {} {v} = Inr c0"
      and cs0: "components_loop g vs (seen \<union> c0) = Inr cs0" and cs: "cs = c0 # cs0"
      by (auto split: sum.splits)
    show ?thesis
    proof (cases "c = c0")
      case True
      with c0 show ?thesis by auto
    next
      case False
      with Cons.prems(2) cs have "c \<in> set cs0" by simp
      from Cons.IH [OF cs0 this] show ?thesis by auto
    qed
  qed
qed

lemma components_loop_cover:
  "components_loop g vs seen = Inr cs \<Longrightarrow> v \<in> set vs \<Longrightarrow> v \<in> seen \<union> \<Union>(set cs)"
proof (induction vs arbitrary: seen cs)
  case Nil
  then show ?case by simp
next
  case (Cons w vs)
  show ?case
  proof (cases "w \<in> seen")
    case True
    with Cons.prems have run: "components_loop g vs seen = Inr cs" by simp
    show ?thesis
    proof (cases "v = w")
      case True
      with \<open>w \<in> seen\<close> show ?thesis by simp
    next
      case False
      with Cons.prems(2) have "v \<in> set vs" by simp
      from Cons.IH [OF run this] show ?thesis .
    qed
  next
    case False
    with Cons.prems(1) obtain c0 cs0 where c0: "plain_bfs g {} {w} = Inr c0"
      and cs0: "components_loop g vs (seen \<union> c0) = Inr cs0" and cs: "cs = c0 # cs0"
      by (auto split: sum.splits)
    from plain_bfs_contains [OF c0] have w: "w \<in> c0" by simp
    show ?thesis
    proof (cases "v = w")
      case True
      with w cs show ?thesis by simp
    next
      case False
      with Cons.prems(2) have "v \<in> set vs" by simp
      from Cons.IH [OF cs0 this] cs show ?thesis by auto
    qed
  qed
qed

lemma py_max_bounds:
  assumes "py_max xs = Inr a"
  shows "a \<in> set xs" and "\<forall>x \<in> set xs. x \<le> a"
proof -
  from assms obtain y ys where xs: "xs = y # ys" by (cases xs) auto
  with assms have a: "a = Max (set xs)" using Max.set_eq_fold [of y ys] by simp
  from xs have "set xs \<noteq> {}" by simp
  with a show "a \<in> set xs" by (simp add: Max_in)
  from a show "\<forall>x \<in> set xs. x \<le> a" by simp
qed

section \<open>Properties of the double arithmetic\<close>

lemma pow2_powi: "pow2 e = 2 powi e"
  by (simp add: pow2_def power_int_def power_inverse inverse_eq_divide flip: power_one_over)

lemma pow2_pos: "0 < pow2 e"
  by (simp add: pow2_def)

lemma pow2_add: "pow2 (a + b) = pow2 a * pow2 b"
  by (simp add: pow2_powi power_int_add)

lemma pow2_mono: "a \<le> b \<Longrightarrow> pow2 a \<le> pow2 b"
  by (simp add: pow2_powi power_int_increasing)

lemma pow2_strict_mono: "a < b \<Longrightarrow> pow2 a < pow2 b"
  by (simp add: pow2_powi power_int_strict_increasing)

lemma pow2_nat: "0 \<le> e \<Longrightarrow> pow2 e = 2 ^ nat e"
  by (simp add: pow2_def)

lemma pow2_neg: "pow2 (- e) = 1 / pow2 e"
  by (simp add: pow2_powi power_int_minus inverse_eq_divide)

lemma floor_log2_bounds:
  assumes "0 < x"
  shows "pow2 (floor_log2 x) \<le> x" and "x < pow2 (floor_log2 x + 1)"
proof -
  have "pow2 (floor_log2 x) \<le> x \<and> x < pow2 (floor_log2 x + 1)"
  proof (cases "1 \<le> x")
    case True
    let ?m = "\<lfloor>x\<rfloor>"
    from True have m: "0 < ?m" by simp
    from bitlen_bounds [OF m] have lo: "2 ^ nat (bitlen ?m - 1) \<le> ?m" and hi: "?m < 2 ^ nat (bitlen ?m)"
      by simp_all
    from m have b: "1 \<le> bitlen ?m" by (simp add: bitlen_alt_def)
    from lo have "(2::rat) ^ nat (bitlen ?m - 1) \<le> of_int ?m" by (metis of_int_le_iff of_int_numeral of_int_power)
    also have "\<dots> \<le> x" by simp
    finally have 1: "pow2 (bitlen ?m - 1) \<le> x" using b by (simp add: pow2_nat)
    from hi have "?m + 1 \<le> 2 ^ nat (bitlen ?m)" by simp
    then have "(of_int (?m + 1) :: rat) \<le> 2 ^ nat (bitlen ?m)"
      by (metis of_int_le_iff of_int_numeral of_int_power)
    moreover have "x < of_int (?m + 1)" by linarith
    ultimately have "x < 2 ^ nat (bitlen ?m)" by linarith
    with b have 2: "x < pow2 (bitlen ?m - 1 + 1)" by (simp add: pow2_nat)
    from True 1 2 show ?thesis by (simp add: floor_log2_def)
  next
    case False
    let ?m = "\<lceil>1 / x\<rceil> - 1"
    from False assms have "1 < 1 / x" by simp
    then have m: "0 < ?m" by linarith
    from bitlen_bounds [OF m] have lo: "2 ^ nat (bitlen ?m - 1) \<le> ?m" and hi: "?m < 2 ^ nat (bitlen ?m)"
      by simp_all
    from m have b: "1 \<le> bitlen ?m" by (simp add: bitlen_alt_def)
    have "1 / x \<le> of_int (?m + 1)" by simp
    also from hi have "?m + 1 \<le> 2 ^ nat (bitlen ?m)" by simp
    then have "(of_int (?m + 1) :: rat) \<le> 2 ^ nat (bitlen ?m)"
      by (metis of_int_le_iff of_int_numeral of_int_power)
    finally have "1 / x \<le> pow2 (bitlen ?m)" using b by (simp add: pow2_nat)
    with assms pow2_pos [of "bitlen ?m"] have "1 / pow2 (bitlen ?m) \<le> x"
      by (simp add: field_simps)
    then have 1: "pow2 (- bitlen ?m) \<le> x" by (simp add: pow2_neg)
    from lo have "(2::rat) ^ nat (bitlen ?m - 1) \<le> of_int ?m" by (metis of_int_le_iff of_int_numeral of_int_power)
    also have "of_int ?m < 1 / x" by linarith
    finally have "pow2 (bitlen ?m - 1) < 1 / x" using b by (simp add: pow2_nat)
    with assms pow2_pos [of "bitlen ?m - 1"] have "x < 1 / pow2 (bitlen ?m - 1)"
      by (simp add: field_simps)
    then have 2: "x < pow2 (- bitlen ?m + 1)" using pow2_neg [of "bitlen ?m - 1"] by simp
    from False 1 2 show ?thesis by (simp add: floor_log2_def)
  qed
  then show "pow2 (floor_log2 x) \<le> x" and "x < pow2 (floor_log2 x + 1)" by simp_all
qed

lemma floor_log2_unique:
  assumes "pow2 e \<le> x" and "x < pow2 (e + 1)"
  shows "floor_log2 x = e"
proof -
  from assms(1) pow2_pos [of e] have x: "0 < x" by linarith
  note b = floor_log2_bounds [OF x]
  have "\<not> floor_log2 x < e"
  proof
    assume "floor_log2 x < e"
    then have "pow2 (floor_log2 x + 1) \<le> pow2 e" by (intro pow2_mono) simp
    with b(2) assms(1) show False by linarith
  qed
  moreover have "\<not> e < floor_log2 x"
  proof
    assume "e < floor_log2 x"
    then have "pow2 (e + 1) \<le> pow2 (floor_log2 x)" by (intro pow2_mono) simp
    with b(1) assms(2) show False by linarith
  qed
  ultimately show ?thesis by simp
qed

lemma round_half_even_bounds:
  "\<lfloor>y\<rfloor> \<le> round_half_even y" "round_half_even y \<le> \<lceil>y\<rceil>"
  "\<bar>of_int (round_half_even y) - y\<bar> \<le> 1 / 2"
proof -
  show "\<lfloor>y\<rfloor> \<le> round_half_even y" by (simp add: round_half_even_def Let_def)
  show "round_half_even y \<le> \<lceil>y\<rceil>"
    by (auto simp: round_half_even_def Let_def ceiling_altdef)
  have f: "of_int \<lfloor>y\<rfloor> \<le> y" "y < of_int \<lfloor>y\<rfloor> + 1" by linarith+
  show "\<bar>of_int (round_half_even y) - y\<bar> \<le> 1 / 2"
  proof (cases "y - of_int \<lfloor>y\<rfloor> < 1 / 2")
    case True
    with f show ?thesis by (simp add: round_half_even_def Let_def)
  next
    case False
    note nlt = this
    show ?thesis
    proof (cases "1 / 2 < y - of_int \<lfloor>y\<rfloor>")
      case True
      with nlt f show ?thesis by (simp add: round_half_even_def Let_def)
    next
      case False
      with nlt have "y - of_int \<lfloor>y\<rfloor> = 1 / 2" by simp
      then show ?thesis by (simp add: round_half_even_def Let_def)
    qed
  qed
qed


lemma round_half_even_int: "round_half_even (of_int k) = k"
  by (simp add: round_half_even_def)

lemma round_double_pos:
  assumes "0 < x"
  shows "\<exists>e q k. e = floor_log2 x \<and> q = pow2 (max (e - 52) (- 1074)) \<and> k = round_half_even (x / q) \<and>
           0 \<le> k \<and>
           round_double x = (if 2 ^ 1024 \<le> q * of_int k then PInf else Finite (q * of_int k))"
proof -
  let ?e = "floor_log2 x"
  let ?q = "pow2 (max (?e - 52) (- 1074))"
  let ?k = "round_half_even (x / ?q)"
  from assms pow2_pos [of "max (?e - 52) (- 1074)"] have "0 \<le> x / ?q" by simp
  then have "0 \<le> \<lfloor>x / ?q\<rfloor>" by simp
  with round_half_even_bounds(1) [of "x / ?q"] have k: "0 \<le> ?k" by linarith
  with pow2_pos [of "max (?e - 52) (- 1074)"] have "0 \<le> ?q * of_int ?k" by simp
  then have "\<bar>?q * of_int ?k\<bar> = ?q * of_int ?k" by simp
  with assms k show ?thesis by (simp add: round_double_def Let_def)
qed

lemma round_double_floor_ceiling:
  assumes "0 \<le> x" and "x < 2 ^ 53"
  shows "\<exists>r. round_double x = Finite r \<and> of_int \<lfloor>x\<rfloor> \<le> r \<and> r \<le> of_int \<lceil>x\<rceil>"
proof (cases "x = 0")
  case True
  then show ?thesis by (simp add: round_double_def)
next
  case False
  with assms have x: "0 < x" by simp
  from round_double_pos [OF x] obtain e q k where e: "e = floor_log2 x"
    and q: "q = pow2 (max (e - 52) (- 1074))" and k: "k = round_half_even (x / q)"
    and rd: "round_double x = (if 2 ^ 1024 \<le> q * of_int k then PInf else Finite (q * of_int k))"
    by blast
  have "\<not> 53 \<le> e"
  proof
    assume "53 \<le> e"
    then have "pow2 53 \<le> pow2 e" by (rule pow2_mono)
    with floor_log2_bounds(1) [OF x] e assms(2) show False by (simp add: pow2_def)
  qed
  then have j: "0 \<le> - max (e - 52) (- 1074)" by simp
  define N where "N = (2::int) ^ nat (- max (e - 52) (- 1074))"
  have qN: "q = 1 / of_int N" using pow2_neg [of "- max (e - 52) (- 1074)"] j
    by (simp add: q N_def pow2_nat)
  have Npos: "0 < N" by (simp add: N_def)
  have y: "x / q = x * of_int N" by (simp add: qN)
  have "of_int (\<lfloor>x\<rfloor> * N) \<le> x * of_int N" using Npos by (simp add: mult_right_mono)
  then have "\<lfloor>x\<rfloor> * N \<le> \<lfloor>x * of_int N\<rfloor>" by (simp only: le_floor_iff)
  with round_half_even_bounds(1) [of "x * of_int N"] k y have lo: "\<lfloor>x\<rfloor> * N \<le> k" by simp
  have "x * of_int N \<le> of_int (\<lceil>x\<rceil> * N)" using Npos by (simp add: mult_right_mono)
  then have "\<lceil>x * of_int N\<rceil> \<le> \<lceil>x\<rceil> * N" by (simp only: ceiling_le_iff)
  with round_half_even_bounds(2) [of "x * of_int N"] k y have hi: "k \<le> \<lceil>x\<rceil> * N" by simp
  from lo have "(of_int (\<lfloor>x\<rfloor> * N) :: rat) \<le> of_int k" by (simp only: of_int_le_iff)
  with Npos have 1: "of_int \<lfloor>x\<rfloor> \<le> q * of_int k" by (simp add: qN field_simps)
  from hi have "(of_int k :: rat) \<le> of_int (\<lceil>x\<rceil> * N)" by (simp only: of_int_le_iff)
  with Npos have 2: "q * of_int k \<le> of_int \<lceil>x\<rceil>" by (simp add: qN field_simps)
  from assms(2) have "\<lceil>x\<rceil> \<le> 2 ^ 53" by (simp add: ceiling_le_iff)
  then have "(of_int \<lceil>x\<rceil> :: rat) \<le> 2 ^ 53" by (metis of_int_le_iff of_int_numeral of_int_power)
  also have "(2::rat) ^ 53 < 2 ^ 1024" by (rule power_strict_increasing) simp_all
  finally have "\<not> 2 ^ 1024 \<le> q * of_int k" using 2 by linarith
  with rd 1 2 show ?thesis by simp
qed

lemma round_double_below_one:
  assumes "0 \<le> x" and "x < 1 - 1 / 2 ^ 54"
  shows "\<exists>r. round_double x = Finite r \<and> 0 \<le> r \<and> r < 1"
proof (cases "x = 0")
  case True
  then show ?thesis by (simp add: round_double_def)
next
  case False
  with assms have x: "0 < x" by simp
  from round_double_pos [OF x] obtain e q k where e: "e = floor_log2 x"
    and q: "q = pow2 (max (e - 52) (- 1074))" and k: "k = round_half_even (x / q)" and k0: "0 \<le> k"
    and rd: "round_double x = (if 2 ^ 1024 \<le> q * of_int k then PInf else Finite (q * of_int k))"
    by blast
  from assms(2) have x1: "x < 1" by (simp add: field_simps) 
  have "\<not> 0 \<le> e"
  proof
    assume "0 \<le> e"
    then have "pow2 0 \<le> pow2 e" by (rule pow2_mono)
    with floor_log2_bounds(1) [OF x] e x1 show False by (simp add: pow2_def)
  qed
  then have "max (e - 52) (- 1074) \<le> - 54 + 1" by simp
  then have "q \<le> pow2 (- 54 + 1)" unfolding q by (rule pow2_mono)
  then have q53: "q \<le> 2 / 2 ^ 54" by (simp add: pow2_def)
  have qpos: "0 < q" by (simp add: q pow2_pos)
  from round_half_even_bounds(3) [of "x / q"] k have "\<bar>of_int k - x / q\<bar> \<le> 1 / 2" by simp
  then have "of_int k - x / q \<le> 1 / 2" by linarith
  with qpos have "q * of_int k - x \<le> q / 2" by (simp add: field_simps)
  with q53 assms(2) have lt: "q * of_int k < 1" by simp
  have "(1::rat) \<le> 2 ^ 1024" by simp
  with lt have "\<not> 2 ^ 1024 \<le> q * of_int k" by linarith
  moreover from qpos k0 have "0 \<le> q * of_int k" by simp
  ultimately show ?thesis using rd lt by simp
qed

lemma round_double_overflow:
  assumes "2 ^ 1024 \<le> x"
  shows "round_double x = PInf"
proof -
  have "(0::rat) < 2 ^ 1024" by simp
  with assms have x: "0 < x" by linarith
  from round_double_pos [OF x] obtain e q k where e: "e = floor_log2 x"
    and q: "q = pow2 (max (e - 52) (- 1074))" and k: "k = round_half_even (x / q)"
    and rd: "round_double x = (if 2 ^ 1024 \<le> q * of_int k then PInf else Finite (q * of_int k))"
    by blast
  have e1024: "1024 \<le> e"
  proof (rule ccontr)
    assume "\<not> 1024 \<le> e"
    then have "pow2 (e + 1) \<le> pow2 1024" by (intro pow2_mono) simp
    with floor_log2_bounds(2) [OF x] e assms show False by (simp add: pow2_def)
  qed
  then have qe: "q = pow2 (e - 52)" by (simp add: q max_def)
  have qpos: "0 < q" by (simp add: q pow2_pos)
  have "pow2 e = pow2 (e - 52) * pow2 52" using pow2_add [of "e - 52" 52] by simp
  with floor_log2_bounds(1) [OF x] e qe have "q * 2 ^ 52 \<le> x" by (simp add: pow2_def)
  with qpos have "2 ^ 52 \<le> x / q" by (simp add: field_simps)
  then have "of_int (2 ^ 52) \<le> x / q" by simp
  then have "2 ^ 52 \<le> \<lfloor>x / q\<rfloor>" by (simp only: le_floor_iff)
  with round_half_even_bounds(1) [of "x / q"] k have "2 ^ 52 \<le> k" by linarith
  then have "(of_int (2 ^ 52) :: rat) \<le> of_int k" by (simp only: of_int_le_iff)
  with qpos have "q * 2 ^ 52 \<le> q * of_int k" by simp
  moreover have "q * 2 ^ 52 = pow2 e" using pow2_add [of "e - 52" 52] qe by (simp add: pow2_def)
  moreover from e1024 have "pow2 1024 \<le> pow2 e" by (rule pow2_mono)
  ultimately have "2 ^ 1024 \<le> q * of_int k" by (simp add: pow2_def)
  with rd show ?thesis by simp
qed

lemma round_double_eval:
  assumes "pow2 e \<le> \<bar>x\<bar>" and "\<bar>x\<bar> < pow2 (e + 1)"
    and "round_half_even (x / pow2 (max (e - 52) (- 1074))) = k"
    and "\<bar>pow2 (max (e - 52) (- 1074)) * of_int k\<bar> \<le> 2 ^ 64"
  shows "round_double x = Finite (pow2 (max (e - 52) (- 1074)) * of_int k)"
proof -
  from assms(1) pow2_pos [of e] have x: "x \<noteq> 0" by auto
  from floor_log2_unique [OF assms(1,2)] have e: "floor_log2 \<bar>x\<bar> = e" .
  have "(2::rat) ^ 64 < 2 ^ 1024" by (rule power_strict_increasing) simp_all
  with assms(4) have "\<not> 2 ^ 1024 \<le> \<bar>pow2 (max (e - 52) (- 1074)) * of_int k\<bar>" by linarith
  with x e assms(3) show ?thesis by (simp add: round_double_def Let_def)
qed

lemma round_double_of_int:
  assumes "0 \<le> n" and "n < 2 ^ 53"
  shows "round_double (of_int n) = Finite (of_int n)"
proof -
  from assms have "(0::rat) \<le> of_int n" and "(of_int n :: rat) < 2 ^ 53"
    by (simp, metis of_int_less_iff of_int_numeral of_int_power)
  from round_double_floor_ceiling [OF this] show ?thesis by auto
qed

text \<open>
  Two doubles and their products: \<^verbatim>\<open>0.7\<close> is \<open>3152519739159347 / 2^52\<close> and
  \<^verbatim>\<open>10 * 0.7\<close> is \<^verbatim>\<open>7.0\<close>; \<^verbatim>\<open>1 / 3\<close> is \<open>6004799503160661 / 2^54\<close> and
  \<^verbatim>\<open>3 * (1 / 3)\<close> is \<^verbatim>\<open>1.0\<close>. Both products are ties, rounded up to the even
  neighbour.
\<close>

lemma round_half_even_tie:
  assumes "y = of_int f + 1 / 2"
  shows "round_half_even y = (if even f then f else f + 1)"
proof -
  have "\<lfloor>y\<rfloor> = f" unfolding assms by (rule floor_unique) simp_all
  then show ?thesis by (simp add: round_half_even_def Let_def assms)
qed

lemma double_0_7:
  "is_double (3152519739159347 / 4503599627370496)"
  "round_double (10 * (3152519739159347 / 4503599627370496)) = Finite 7"
proof -
  have "round_double (3152519739159347 / 4503599627370496) =
      Finite (pow2 (max (- 1 - 52) (- 1074)) * of_int 6305039478318694)"
  proof (rule round_double_eval)
    have "(3152519739159347 / 4503599627370496 :: rat) / pow2 (max (- 1 - 52) (- 1074)) =
        of_int 6305039478318694" by (simp add: pow2_def)
    then show "round_half_even (3152519739159347 / 4503599627370496 / pow2 (max (- 1 - 52) (- 1074))) =
        6305039478318694" by (simp only: round_half_even_int)
  qed (simp_all add: pow2_def)
  then show "is_double (3152519739159347 / 4503599627370496)" by (simp add: is_double_def pow2_def)
  have "round_double (10 * (3152519739159347 / 4503599627370496)) =
      Finite (pow2 (max (2 - 52) (- 1074)) * of_int 7881299347898368)"
  proof (rule round_double_eval)
    have "(10 * (3152519739159347 / 4503599627370496) :: rat) / pow2 (max (2 - 52) (- 1074)) =
        of_int 7881299347898367 + 1 / 2" by (simp add: pow2_def)
    from round_half_even_tie [OF this]
    show "round_half_even (10 * (3152519739159347 / 4503599627370496) / pow2 (max (2 - 52) (- 1074))) =
        7881299347898368" by simp
  qed (simp_all add: pow2_def)
  then show "round_double (10 * (3152519739159347 / 4503599627370496)) = Finite 7"
    by (simp add: pow2_def)
qed

lemma double_third:
  "is_double (6004799503160661 / 18014398509481984)"
  "round_double (3 * (6004799503160661 / 18014398509481984)) = Finite 1"
proof -
  have "round_double (6004799503160661 / 18014398509481984) =
      Finite (pow2 (max (- 2 - 52) (- 1074)) * of_int 6004799503160661)"
  proof (rule round_double_eval)
    have "(6004799503160661 / 18014398509481984 :: rat) / pow2 (max (- 2 - 52) (- 1074)) =
        of_int 6004799503160661" by (simp add: pow2_def)
    then show "round_half_even (6004799503160661 / 18014398509481984 / pow2 (max (- 2 - 52) (- 1074))) =
        6004799503160661" by (simp only: round_half_even_int)
  qed (simp_all add: pow2_def)
  then show "is_double (6004799503160661 / 18014398509481984)" by (simp add: is_double_def pow2_def)
  have "round_double (3 * (6004799503160661 / 18014398509481984)) =
      Finite (pow2 (max (- 1 - 52) (- 1074)) * of_int 9007199254740992)"
  proof (rule round_double_eval)
    have "(3 * (6004799503160661 / 18014398509481984) :: rat) / pow2 (max (- 1 - 52) (- 1074)) =
        of_int 9007199254740991 + 1 / 2" by (simp add: pow2_def)
    from round_half_even_tie [OF this]
    show "round_half_even (3 * (6004799503160661 / 18014398509481984) / pow2 (max (- 1 - 52) (- 1074))) =
        9007199254740992" by simp
  qed (simp_all add: pow2_def)
  then show "round_double (3 * (6004799503160661 / 18014398509481984)) = Finite 1"
    by (simp add: pow2_def)
qed

lemma round_double_nonneg:
  assumes "0 < x"
  shows "\<exists>v. 0 \<le> v \<and> (round_double x = PInf \<or> round_double x = Finite v)"
proof -
  from round_double_pos [OF assms] obtain q k where q: "q = pow2 (max (floor_log2 x - 52) (- 1074))"
    and k: "0 \<le> k"
    and rd: "round_double x = (if 2 ^ 1024 \<le> q * of_int k then PInf else Finite (q * of_int k))"
    by blast
  from q have "0 < q" by (simp add: pow2_pos)
  with k have "0 \<le> q * of_int k" by simp
  with rd show ?thesis by (cases "2 ^ 1024 \<le> q * of_int k") auto
qed

lemma int_of_product_bounds:
  assumes "1 \<le> n" and "n < 2 ^ 53" and "0 \<le> r" and "of_int n * r < 2 ^ 53"
  shows "\<exists>e. int_of_product n (Finite r) = Inr e \<and> \<lfloor>of_int n * r\<rfloor> \<le> e \<and> e \<le> \<lceil>of_int n * r\<rceil> \<and>
           (is_double (of_int n * r) \<longrightarrow> e = \<lfloor>of_int n * r\<rfloor>)"
proof -
  let ?x = "of_int n * r"
  from assms(1,2) have f: "int_to_float n = Inr (Finite (of_int n))"
    by (simp add: int_to_float_def round_double_of_int)
  from assms(1,3) have x0: "0 \<le> ?x" by simp
  from round_double_floor_ceiling [OF x0 assms(4)] obtain v where v: "round_double ?x = Finite v"
    and lo: "of_int \<lfloor>?x\<rfloor> \<le> v" and hi: "v \<le> of_int \<lceil>?x\<rceil>" by blast
  from x0 have "0 \<le> \<lfloor>?x\<rfloor>" by simp
  then have "(0::rat) \<le> of_int \<lfloor>?x\<rfloor>" by (simp only: of_int_0_le_iff)
  with lo have v0: "0 \<le> v" by linarith
  from f v v0 have e: "int_of_product n (Finite r) = Inr \<lfloor>v\<rfloor>" by (simp add: int_of_product_def)
  from lo have 1: "\<lfloor>?x\<rfloor> \<le> \<lfloor>v\<rfloor>" by (simp only: le_floor_iff)
  have "of_int \<lfloor>v\<rfloor> \<le> v" by (rule of_int_floor_le)
  with hi have "(of_int \<lfloor>v\<rfloor> :: rat) \<le> of_int \<lceil>?x\<rceil>" by linarith
  then have "\<lfloor>v\<rfloor> \<le> \<lceil>?x\<rceil>" by (simp only: of_int_le_iff)
  moreover have "\<lfloor>v\<rfloor> = \<lfloor>?x\<rfloor>" if "is_double ?x" using that v by (simp add: is_double_def)
  ultimately show ?thesis using e 1 by blast
qed

lemma int_of_product_below_one:
  assumes "1 \<le> n" and "n < 2 ^ 53" and "0 \<le> r" and "of_int n * r < 1 - 1 / 2 ^ 54"
  shows "int_of_product n (Finite r) = Inr 0"
proof -
  from assms(1,2) have f: "int_to_float n = Inr (Finite (of_int n))"
    by (simp add: int_to_float_def round_double_of_int)
  from assms(1,3) have x0: "(0::rat) \<le> of_int n * r" by simp
  from round_double_below_one [OF x0 assms(4)] obtain v where "round_double (of_int n * r) = Finite v"
    and "0 \<le> v" and "v < 1" by blast
  moreover from this have "\<lfloor>v\<rfloor> = 0" by linarith
  ultimately show ?thesis using f by (simp add: int_of_product_def)
qed

lemma int_of_product_overflow:
  assumes "1 \<le> n" and "n < 2 ^ 53" and "2 ^ 1024 \<le> of_int n * r"
  shows "int_of_product n (Finite r) = Inl OverflowError"
proof -
  from assms(1,2) have f: "int_to_float n = Inr (Finite (of_int n))"
    by (simp add: int_to_float_def round_double_of_int)
  with round_double_overflow [OF assms(3)] show ?thesis by (simp add: int_of_product_def)
qed

lemma int_of_product_nonneg:
  assumes "1 \<le> n" and "py_ge0 s" and "int_of_product n s = Inr e"
  shows "0 \<le> e"
proof -
  have n: "(0::rat) < of_int n" using assms(1) by simp
  from round_double_nonneg [OF n] obtain a where a: "0 \<le> a"
    and rn: "round_double (of_int n) = PInf \<or> round_double (of_int n) = Finite a"
    by blast
  from assms(3) rn have f: "int_to_float n = Inr (Finite a)"
    by (auto simp: int_of_product_def int_to_float_def)
  show ?thesis
  proof (cases s)
    case (Finite r)
    with assms(2) have "0 \<le> a * r" using a by simp
    then consider "a * r = 0" | "0 < a * r" by linarith
    then show ?thesis
    proof cases
      case 1
      with f Finite assms(3) show ?thesis by (simp add: int_of_product_def round_double_def)
    next
      case 2
      from round_double_nonneg [OF 2] obtain v where "0 \<le> v"
        and "round_double (a * r) = PInf \<or> round_double (a * r) = Finite v"
        by blast
      with f Finite assms(3) show ?thesis by (auto simp: int_of_product_def)
    qed
  next
    case PInf
    with f assms(3) show ?thesis by (auto simp: int_of_product_def split: if_splits)
  next
    case NInf
    with assms(2) show ?thesis by simp
  next
    case NaN
    with assms(2) show ?thesis by simp
  qed
qed

lemma round_double_finite:
  assumes "0 \<le> x" and "x < 2 ^ 1023"
  shows "\<exists>v. round_double x = Finite v \<and> 0 \<le> v"
proof (cases "x = 0")
  case True
  then show ?thesis by (simp add: round_double_def)
next
  case False
  with assms have x: "0 < x" by simp
  from round_double_pos [OF x] obtain e q k where e: "e = floor_log2 x"
    and q: "q = pow2 (max (e - 52) (- 1074))" and k: "k = round_half_even (x / q)" and k0: "0 \<le> k"
    and rd: "round_double x = (if 2 ^ 1024 \<le> q * of_int k then PInf else Finite (q * of_int k))"
    by blast
  have "\<not> 1023 \<le> e"
  proof
    assume "1023 \<le> e"
    then have "pow2 1023 \<le> pow2 e" by (rule pow2_mono)
    with floor_log2_bounds(1) [OF x] e assms(2) show False by (simp add: pow2_def)
  qed
  then have "max (e - 52) (- 1074) \<le> 970" by simp
  then have "q \<le> pow2 970" unfolding q by (rule pow2_mono)
  then have q970: "q \<le> 2 ^ 970" by (simp add: pow2_def)
  have qpos: "0 < q" by (simp add: q pow2_pos)
  from round_half_even_bounds(3) [of "x / q"] k have "\<bar>of_int k - x / q\<bar> \<le> 1 / 2" by simp
  then have "of_int k - x / q \<le> 1 / 2" by linarith
  with qpos have "q * of_int k - x \<le> q / 2" by (simp add: field_simps)
  moreover from qpos have "q / 2 \<le> q" by simp
  ultimately have "q * of_int k \<le> x + q" by linarith
  with q970 have le: "q * of_int k \<le> x + 2 ^ 970" by linarith
  have "(2::rat) ^ 970 < 2 ^ 1023" by (rule power_strict_increasing) simp_all
  moreover have "(2::rat) ^ 1024 = 2 ^ 1023 + 2 ^ 1023" using power_add [of "2::rat" 1 1023] by simp
  ultimately have "\<not> 2 ^ 1024 \<le> q * of_int k" using le assms(2) by linarith
  moreover from qpos k0 have "0 \<le> q * of_int k" by simp
  ultimately show ?thesis using rd by simp
qed

lemma int_of_product_finite:
  assumes "1 \<le> n" and "n < 2 ^ 53" and "0 \<le> r" and "of_int n * r < 2 ^ 1023"
  shows "\<exists>b. int_of_product n (Finite r) = Inr b \<and> 0 \<le> b"
proof -
  from assms(1,2) have f: "int_to_float n = Inr (Finite (of_int n))"
    by (simp add: int_to_float_def round_double_of_int)
  from assms(1,3) have x0: "(0::rat) \<le> of_int n * r" by simp
  from round_double_finite [OF x0 assms(4)] obtain v where "round_double (of_int n * r) = Finite v"
    and "0 \<le> v" by blast
  with f show ?thesis by (simp add: int_of_product_def)
qed

lemma double_0_05: "is_double (3602879701896397 / 72057594037927936)"
proof -
  have "round_double (3602879701896397 / 72057594037927936) =
      Finite (pow2 (max (- 5 - 52) (- 1074)) * of_int 7205759403792794)"
  proof (rule round_double_eval)
    have "(3602879701896397 / 72057594037927936 :: rat) / pow2 (max (- 5 - 52) (- 1074)) =
        of_int 7205759403792794" by (simp add: pow2_def)
    then show "round_half_even (3602879701896397 / 72057594037927936 / pow2 (max (- 5 - 52) (- 1074))) =
        7205759403792794" by (simp only: round_half_even_int)
  qed (simp_all add: pow2_def)
  then show ?thesis by (simp add: is_double_def pow2_def)
qed

section \<open>Properties of the model\<close>

lemma setup_model_buttons:
  "buttons (setup_model m) = \<lparr>node_keys = [0..<nat (p_n m)], adj = (\<lambda>_. {})\<rparr>"
proof -
  have "node_keys (add_agents empty_graph (nat (p_n m))) = [0..<0 + nat (p_n m)]"
    by (rule add_agents_node_keys) (simp add: empty_graph_def)
  moreover have "adj (add_agents empty_graph (nat (p_n m))) = (\<lambda>_. {})"
    by (rule add_agents_adj) (simp add: empty_graph_def)
  ultimately show ?thesis by (simp add: setup_model_def Let_def)
qed

lemma setup_model_agents: "agents (setup_model m) = [0..<nat (p_n m)]"
proof -
  have "node_keys (add_agents empty_graph (nat (p_n m))) = [0..<0 + nat (p_n m)]"
    by (rule add_agents_node_keys) (simp add: empty_graph_def)
  then show ?thesis by (simp add: setup_model_def Let_def map_snd_zip)
qed

lemma setup_model_frame:
  "p_n (setup_model m) = p_n m" "p_speed (setup_model m) = p_speed m"
  "threads (setup_model m) = 0" "model_t (setup_model m) = model_t m"
  "max_cluster_size_log (setup_model m) = max_cluster_size_log m"
  "threads_to_button_log (setup_model m) = threads_to_button_log m"
  "rng (setup_model m) = rng m"
  by (simp_all add: setup_model_def Let_def)

lemma setup_model_inv: "1 \<le> p_n m \<Longrightarrow> model_inv (setup_model m)"
  by (simp add: model_inv_def setup_model_buttons setup_model_agents setup_model_frame wf_graph_def)

lemma random2_Inr:
  assumes "random2 m = Inr ((u, v), m1)"
  shows "2 \<le> length (agents m)" and "u \<in> set (agents m)" and "v \<in> set (agents m)"
    and "m1 = m\<lparr>rng := (\<lambda>i. rng m (i + 2))\<rparr>"
    and "distinct (agents m) \<Longrightarrow> u \<noteq> v"
proof -
  let ?xs = "agents m" and ?n = "length (agents m)"
  let ?j0 = "rng m 0 mod ?n" and ?j1 = "rng m 1 mod (?n - 1)"
  from assms show n: "2 \<le> ?n" by (auto simp: random2_def Let_def split: if_splits)
  with assms have u: "u = ?xs ! ?j0" and v: "v = (?xs[?j0 := ?xs ! (?n - 1)]) ! ?j1"
    and m1: "m1 = m\<lparr>rng := (\<lambda>i. rng m (i + 2))\<rparr>"
    by (auto simp: random2_def Let_def split: if_splits)
  from n have "0 < ?n" and "0 < ?n - 1" by linarith+
  then have j0: "?j0 < ?n" and j1: "?j1 < ?n - 1" by (simp_all only: mod_less_divisor)
  from j0 u show "u \<in> set ?xs" by simp
  from j0 j1 v show "v \<in> set ?xs" by (cases "?j1 = ?j0") (simp_all add: nth_list_update)
  from m1 show "m1 = m\<lparr>rng := (\<lambda>i. rng m (i + 2))\<rparr>" .
  show "u \<noteq> v" if d: "distinct ?xs"
  proof (cases "?j1 = ?j0")
    case True
    with j0 v have "v = ?xs ! (?n - 1)" by simp
    moreover from True j1 have "?j0 \<noteq> ?n - 1" by simp
    ultimately show ?thesis using u d j0 n by (simp add: nth_eq_iff_index_eq)
  next
    case False
    with v have "v = ?xs ! ?j1" by simp
    with False u d j0 j1 show ?thesis by (simp add: nth_eq_iff_index_eq)
  qed
qed

lemma random2_total:
  "2 \<le> length (agents m) \<Longrightarrow> \<exists>u v. random2 m = Inr ((u, v), m\<lparr>rng := (\<lambda>i. rng m (i + 2))\<rparr>)"
  by (simp add: random2_def Let_def)

lemma random2_Inl: "random2 m = Inl e \<Longrightarrow> length (agents m) < 2 \<and> e = ValueError"
  by (auto simp: random2_def Let_def split: if_splits)

text \<open>
  The sample is not narrower than the library's: every ordered pair of agents at two
  different positions is the result of \<open>random2\<close> for some state of the generator.
\<close>

lemma random2_reaches_every_pair:
  assumes "i < length (agents m)" and "j < length (agents m)" and "i \<noteq> j"
  shows "\<exists>r m1. random2 (m\<lparr>rng := r\<rparr>) = Inr ((agents m ! i, agents m ! j), m1)"
proof -
  let ?n = "length (agents m)"
  let ?b = "if j = ?n - 1 then i else j"
  let ?r = "\<lambda>k::nat. if k = 0 then i else ?b"
  from assms have n: "2 \<le> ?n" by linarith
  from assms have b: "?b < ?n - 1" by auto
  from assms(1) have j0: "?r 0 mod ?n = i" by simp
  from b have j1: "?r 1 mod (?n - 1) = ?b" by simp
  from assms b have pick: "(agents m)[i := agents m ! (?n - 1)] ! ?b = agents m ! j"
    by (auto simp: nth_list_update)
  from n have "\<not> ?n < 2" by simp
  then have "random2 (m\<lparr>rng := ?r\<rparr>) =
      Inr ((agents m ! i, agents m ! j), m\<lparr>rng := ?r\<rparr>\<lparr>rng := (\<lambda>k. ?r (k + 2))\<rparr>)"
    unfolding random2_def Let_def using j0 j1 pick by simp
  then show ?thesis by blast
qed

lemma step_loop_props:
  "model_inv m \<Longrightarrow> step_loop k m = Inr m' \<Longrightarrow>
   model_inv m' \<and> p_n m' = p_n m \<and> p_speed m' = p_speed m \<and> model_t m' = model_t m \<and>
   threads m' = threads m + int k \<and>
   max_cluster_size_log m' = max_cluster_size_log m \<and>
   threads_to_button_log m' = threads_to_button_log m \<and>
   (\<forall>x. adj (buttons m) x \<subseteq> adj (buttons m') x)"
proof (induction k arbitrary: m)
  case 0
  then show ?case by simp
next
  case (Suc k)
  from Suc.prems(2) obtain u v m1 where r: "random2 m = Inr ((u, v), m1)"
    and run: "step_loop k (m1\<lparr>buttons := add_edge (buttons m1) u v, threads := threads m1 + 1\<rparr>) = Inr m'"
    by (auto split: sum.splits)
  let ?m2 = "m1\<lparr>buttons := add_edge (buttons m1) u v, threads := threads m1 + 1\<rparr>"
  from random2_Inr [OF r] have u: "u \<in> set (agents m)" and v: "v \<in> set (agents m)"
    and m1: "m1 = m\<lparr>rng := (\<lambda>i. rng m (i + 2))\<rparr>" by simp_all
  from Suc.prems(1) u v have un: "u \<in> set (node_keys (buttons m))" and vn: "v \<in> set (node_keys (buttons m))"
    by (simp_all add: model_inv_def)
  from Suc.prems(1) have inv2: "model_inv ?m2"
    using un vn by (simp add: model_inv_def m1 add_edge_node_keys add_edge_wf)
  have grow: "\<forall>x. adj (buttons m) x \<subseteq> adj (buttons ?m2) x"
    using un vn by (simp add: m1 add_edge_adj) blast
  from Suc.IH [OF inv2 run] grow show ?case by (simp add: m1) blast
qed

lemma step_loop_total:
  "model_inv m \<Longrightarrow> 2 \<le> p_n m \<Longrightarrow> \<exists>m'. step_loop k m = Inr m'"
proof (induction k arbitrary: m)
  case 0
  then show ?case by simp
next
  case (Suc k)
  from Suc.prems have "2 \<le> length (agents m)" by (simp add: model_inv_def)
  from random2_total [OF this] obtain u v where r: "random2 m = Inr ((u, v), m\<lparr>rng := (\<lambda>i. rng m (i + 2))\<rparr>)"
    by blast
  let ?m1 = "m\<lparr>rng := (\<lambda>i. rng m (i + 2))\<rparr>"
  let ?m2 = "?m1\<lparr>buttons := add_edge (buttons ?m1) u v, threads := threads ?m1 + 1\<rparr>"
  have one: "step_loop (Suc 0) m = Inr ?m2" using r by simp
  from step_loop_props [OF Suc.prems(1) one] have "model_inv ?m2" "p_n ?m2 = p_n m" by simp_all
  with Suc.prems(2) Suc.IH [of ?m2] obtain m' where "step_loop k ?m2 = Inr m'" by auto
  with r show ?case by simp
qed

lemma step_loop_no_selfloop:
  "model_inv m \<Longrightarrow> \<not> has_selfloop (buttons m) \<Longrightarrow> step_loop k m = Inr m' \<Longrightarrow>
   \<not> has_selfloop (buttons m')"
proof (induction k arbitrary: m)
  case 0
  then show ?case by simp
next
  case (Suc k)
  from Suc.prems(3) obtain u v m1 where r: "random2 m = Inr ((u, v), m1)"
    and run: "step_loop k (m1\<lparr>buttons := add_edge (buttons m1) u v, threads := threads m1 + 1\<rparr>) = Inr m'"
    by (auto split: sum.splits)
  let ?m2 = "m1\<lparr>buttons := add_edge (buttons m1) u v, threads := threads m1 + 1\<rparr>"
  from Suc.prems(1) have d: "distinct (agents m)" by (simp add: model_inv_def)
  from random2_Inr [OF r] d have u: "u \<in> set (agents m)" and v: "v \<in> set (agents m)"
    and m1: "m1 = m\<lparr>rng := (\<lambda>i. rng m (i + 2))\<rparr>" and uv: "u \<noteq> v" by simp_all
  from Suc.prems(1) u v have un: "u \<in> set (node_keys (buttons m))" and vn: "v \<in> set (node_keys (buttons m))"
    by (simp_all add: model_inv_def)
  have one: "step_loop (Suc 0) m = Inr ?m2" using r by simp
  have inv2: "model_inv ?m2" by (rule step_loop_props [OF Suc.prems(1) one, THEN conjunct1])
  have "\<not> has_selfloop (buttons ?m2)"
    using Suc.prems(2) un vn uv by (auto simp: has_selfloop_def m1 add_edge_node_keys add_edge_adj)
  from Suc.IH [OF inv2 this run] show ?case .
qed

lemma wf_graph_closed: "wf_graph g \<Longrightarrow> closed_under g (set (node_keys g))"
  by (simp add: wf_graph_def closed_under_def)

lemma component_props:
  assumes "wf_graph g" and "plain_bfs g {} {v} = Inr c" and "v \<in> set (node_keys g)"
  shows "v \<in> c" and "closed_under g c" and "c \<subseteq> set (node_keys g)" and "finite c"
proof -
  from plain_bfs_contains [OF assms(2)] show "v \<in> c" by simp
  from plain_bfs_closed [OF assms(2)] show "closed_under g c" by simp
  from plain_bfs_least [OF assms(2) wf_graph_closed [OF assms(1)]] assms(3)
  show sub: "c \<subseteq> set (node_keys g)" by simp
  from sub show "finite c" by (rule finite_subset) simp
qed

lemma largest_cluster_total:
  assumes "wf_graph g" and "node_keys g \<noteq> []"
  shows "\<exists>a. largest_cluster g = Inr a"
proof -
  from components_loop_total [OF assms(1) subset_refl, of "{}"]
  obtain cs where cs: "connected_components g = Inr cs" by (auto simp: connected_components_def)
  from assms(2) obtain v vs where "node_keys g = v # vs" by (cases "node_keys g") auto
  with cs have "cs \<noteq> []" by (auto simp: connected_components_def split: sum.splits)
  then obtain x xs where "map card cs = x # xs" by (cases cs) auto
  with cs show ?thesis by (simp add: largest_cluster_def)
qed

lemma largest_cluster_nonempty:
  assumes "largest_cluster g = Inr a"
  shows "node_keys g \<noteq> []"
proof
  assume "node_keys g = []"
  then have "connected_components g = Inr []" by (simp add: connected_components_def)
  with assms show False by (simp add: largest_cluster_def)
qed

lemma largest_cluster_mono:
  assumes wf: "wf_graph g" and wf': "wf_graph g'" and nodes: "node_keys g' = node_keys g"
    and grow: "\<forall>x. adj g x \<subseteq> adj g' x"
    and a: "largest_cluster g = Inr a" and b: "largest_cluster g' = Inr b"
  shows "a \<le> b"
proof -
  from a obtain cs where cs: "components_loop g (node_keys g) {} = Inr cs"
    and ma: "py_max (map card cs) = Inr a"
    by (auto simp: largest_cluster_def connected_components_def split: sum.splits)
  from b obtain cs' where cs': "components_loop g' (node_keys g') {} = Inr cs'"
    and mb: "py_max (map card cs') = Inr b"
    by (auto simp: largest_cluster_def connected_components_def split: sum.splits)
  from py_max_bounds(1) [OF ma] obtain c where c: "c \<in> set cs" and ca: "a = card c" by auto
  from components_loop_origin [OF cs c] obtain v where v: "v \<in> set (node_keys g)"
    and bfs: "plain_bfs g {} {v} = Inr c" by auto
  from v nodes have "v \<in> set (node_keys g')" by simp
  from components_loop_cover [OF cs' this] obtain c' where c': "c' \<in> set cs'" and vc': "v \<in> c'"
    by auto
  from components_loop_origin [OF cs' c'] obtain w where w: "w \<in> set (node_keys g')"
    and bfs': "plain_bfs g' {} {w} = Inr c'" by auto
  from component_props [OF wf' bfs' w] have cl': "closed_under g' c'" and fin: "finite c'" by simp_all
  from cl' grow have "closed_under g c'" unfolding closed_under_def by blast
  from plain_bfs_least [OF bfs this] vc' have "c \<subseteq> c'" by simp
  with fin have "card c \<le> card c'" by (simp add: card_mono)
  moreover from py_max_bounds(2) [OF mb] c' have "card c' \<le> b" by simp
  ultimately show ?thesis using ca by simp
qed

lemma largest_cluster_isolated:
  assumes "distinct (node_keys g)" and "node_keys g \<noteq> []" and "adj g = (\<lambda>_. {})"
  shows "largest_cluster g = Inr 1"
proof -
  from assms(1,3) have wf: "wf_graph g" by (simp add: wf_graph_def)
  from largest_cluster_total [OF wf assms(2)] obtain a where a: "largest_cluster g = Inr a" ..
  from a obtain cs where cs: "components_loop g (node_keys g) {} = Inr cs"
    and ma: "py_max (map card cs) = Inr a"
    by (auto simp: largest_cluster_def connected_components_def split: sum.splits)
  from py_max_bounds(1) [OF ma] obtain c where c: "c \<in> set cs" and ca: "a = card c" by auto
  from components_loop_origin [OF cs c] obtain v where v: "v \<in> set (node_keys g)"
    and bfs: "plain_bfs g {} {v} = Inr c" by auto
  have "closed_under g {v}" by (simp add: closed_under_def assms(3))
  from plain_bfs_least [OF bfs this] have "c \<subseteq> {v}" by simp
  moreover from plain_bfs_contains [OF bfs] have "v \<in> c" by simp
  ultimately have "c = {v}" by auto
  with ca a show ?thesis by simp
qed

lemma update_Inr:
  assumes "update m = Inr m'"
  shows "\<exists>a. largest_cluster (buttons m) = Inr a \<and> p_n m \<noteq> 0 \<and>
           m' = m\<lparr>max_cluster_size_log := max_cluster_size_log m @ [of_int (int a) / of_int (p_n m)],
                  threads_to_button_log := threads_to_button_log m @ [of_int (threads m) / of_int (p_n m)]\<rparr>"
proof -
  from assms obtain cs where cs: "connected_components (buttons m) = Inr cs"
    by (cases "connected_components (buttons m)") (simp_all add: update_def)
  from assms cs obtain a where a: "py_max (map card cs) = Inr a"
    by (cases "py_max (map card cs)") (simp_all add: update_def)
  from assms cs a have n: "p_n m \<noteq> 0"
    by (cases "p_n m = 0") (simp_all add: update_def py_truediv_def)
  let ?m' = "m\<lparr>max_cluster_size_log := max_cluster_size_log m @ [of_int (int a) / of_int (p_n m)],
                  threads_to_button_log := threads_to_button_log m @ [of_int (threads m) / of_int (p_n m)]\<rparr>"
  from cs a n have "update m = Inr ?m'" by (simp add: update_def py_truediv_def)
  with assms have "Inr m' = (Inr ?m' :: error + model)" by (simp only:)
  then have "m' = ?m'" by (simp only: sum.inject)
  moreover from cs a have "largest_cluster (buttons m) = Inr a" by (simp add: largest_cluster_def)
  ultimately show ?thesis using n by blast
qed

lemma update_total:
  assumes "model_inv m"
  shows "\<exists>m'. update m = Inr m'"
proof -
  from assms have wf: "wf_graph (buttons m)" and ne: "node_keys (buttons m) \<noteq> []" and n: "p_n m \<noteq> 0"
    by (auto simp: model_inv_def)
  from largest_cluster_total [OF wf ne] obtain a where a: "largest_cluster (buttons m) = Inr a" ..
  then obtain cs where cs: "connected_components (buttons m) = Inr cs"
    by (cases "connected_components (buttons m)") (simp_all add: largest_cluster_def)
  with a have "py_max (map card cs) = Inr a" by (simp add: largest_cluster_def)
  with cs n show ?thesis by (simp add: update_def py_truediv_def)
qed

lemma update_inv:
  assumes "model_inv m" and "update m = Inr m'"
  shows "model_inv m'"
proof -
  from update_Inr [OF assms(2)] obtain a where
    "m' = m\<lparr>max_cluster_size_log := max_cluster_size_log m @ [of_int (int a) / of_int (p_n m)],
                  threads_to_button_log := threads_to_button_log m @ [of_int (threads m) / of_int (p_n m)]\<rparr>"
    by blast
  with assms(1) show ?thesis by (simp add: model_inv_def)
qed

lemma step_loop_threads: "step_loop k m = Inr m' \<Longrightarrow> threads m' = threads m + int k"
proof (induction k arbitrary: m)
  case 0
  then show ?case by simp
next
  case (Suc k)
  from Suc.prems obtain u v m1 where r: "random2 m = Inr ((u, v), m1)"
    and run: "step_loop k (m1\<lparr>buttons := add_edge (buttons m1) u v, threads := threads m1 + 1\<rparr>) = Inr m'"
    by (auto split: sum.splits)
  from random2_Inr(4) [OF r] have "threads m1 = threads m" by simp
  with Suc.IH [OF run] show ?case by simp
qed

lemma loop_bound_model_t [simp]:
  "loop_bound (m\<lparr>model_t := x\<rparr>) = loop_bound m" "iterations (m\<lparr>model_t := x\<rparr>) = iterations m"
  by (simp_all add: loop_bound_def iterations_def)

lemma iterations_eq: "loop_bound m = Inr b \<Longrightarrow> iterations m = nat b"
  by (simp add: iterations_def)

lemma step_loop_of_step:
  assumes "step m = Inr m'"
  shows "\<exists>b. loop_bound m = Inr b" and "step_loop (iterations m) m = Inr m'"
proof -
  from assms obtain b where b: "loop_bound m = Inr b"
    by (cases "loop_bound m") (simp_all add: step_def)
  then show "\<exists>b. loop_bound m = Inr b" ..
  from assms b show "step_loop (iterations m) m = Inr m'" by (simp add: step_def iterations_def)
qed

lemma step_of_step_loop: "loop_bound m = Inr b \<Longrightarrow> step m = step_loop (iterations m) m"
  by (simp add: step_def iterations_def)

lemma step_loop_bound_error: "loop_bound m = Inl e \<Longrightarrow> step m = Inl e"
  by (simp add: step_def)

lemma sim_step_Inr:
  assumes "sim_step m = Inr m'"
  shows "\<exists>m1 a. (\<exists>b. loop_bound m = Inr b) \<and>
           step_loop (iterations m) (m\<lparr>model_t := model_t m + 1\<rparr>) = Inr m1 \<and>
           largest_cluster (buttons m1) = Inr a \<and> p_n m1 \<noteq> 0 \<and>
           m' = m1\<lparr>max_cluster_size_log := max_cluster_size_log m1 @ [of_int (int a) / of_int (p_n m1)],
                   threads_to_button_log := threads_to_button_log m1 @ [of_int (threads m1) / of_int (p_n m1)]\<rparr>"
proof -
  from assms obtain m1 where s: "step (m\<lparr>model_t := model_t m + 1\<rparr>) = Inr m1" and u: "update m1 = Inr m'"
    by (auto simp: sim_step_def split: sum.splits)
  from step_loop_of_step [OF s]
  have "\<exists>b. loop_bound m = Inr b" and "step_loop (iterations m) (m\<lparr>model_t := model_t m + 1\<rparr>) = Inr m1"
    by simp_all
  with update_Inr [OF u] show ?thesis by blast
qed

lemma sim_step_inv:
  assumes "model_inv m" and "sim_step m = Inr m'"
  shows "model_inv m'" and "p_n m' = p_n m" and "p_speed m' = p_speed m"
    and "model_t m' = model_t m + 1"
    and "threads m' = threads m + int (iterations m)"
    and "node_keys (buttons m') = node_keys (buttons m)"
    and "threads_to_button_log m' = threads_to_button_log m @ [of_int (threads m') / of_int (p_n m)]"
    and "\<exists>a b. largest_cluster (buttons m) = Inr a \<and> largest_cluster (buttons m') = Inr b \<and> a \<le> b \<and>
           max_cluster_size_log m' = max_cluster_size_log m @ [of_int (int b) / of_int (p_n m)]"
proof -
  let ?m0 = "m\<lparr>model_t := model_t m + 1\<rparr>"
  from sim_step_Inr [OF assms(2)] obtain m1 b where
    loop: "step_loop (iterations m) ?m0 = Inr m1" and b: "largest_cluster (buttons m1) = Inr b"
    and m': "m' = m1\<lparr>max_cluster_size_log := max_cluster_size_log m1 @ [of_int (int b) / of_int (p_n m1)],
                   threads_to_button_log := threads_to_button_log m1 @ [of_int (threads m1) / of_int (p_n m1)]\<rparr>"
    by blast
  from assms(1) have inv0: "model_inv ?m0" by (simp add: model_inv_def)
  from step_loop_props [OF inv0 loop]
  have inv1: "model_inv m1" and pn: "p_n m1 = p_n m" and ps: "p_speed m1 = p_speed m"
    and mt: "model_t m1 = model_t m + 1" and th: "threads m1 = threads m + int (iterations m)"
    and l1: "max_cluster_size_log m1 = max_cluster_size_log m"
    and l2: "threads_to_button_log m1 = threads_to_button_log m"
    and grow: "\<forall>x. adj (buttons m) x \<subseteq> adj (buttons m1) x"
    by simp_all
  from m' have e: "buttons m' = buttons m1" "agents m' = agents m1" "p_n m' = p_n m1"
    "p_speed m' = p_speed m1" "model_t m' = model_t m1" "threads m' = threads m1"
    "max_cluster_size_log m' = max_cluster_size_log m1 @ [of_int (int b) / of_int (p_n m1)]"
    "threads_to_button_log m' = threads_to_button_log m1 @ [of_int (threads m1) / of_int (p_n m1)]"
    by simp_all
  from inv1 show "model_inv m'" unfolding model_inv_def e .
  from e pn show "p_n m' = p_n m" by simp
  from e ps show "p_speed m' = p_speed m" by simp
  from e mt show "model_t m' = model_t m + 1" by simp
  from e th show "threads m' = threads m + int (iterations m)" by simp
  from inv1 have "node_keys (buttons m1) = [0..<nat (p_n m1)]" by (simp only: model_inv_def)
  moreover from assms(1) have "node_keys (buttons m) = [0..<nat (p_n m)]" by (simp only: model_inv_def)
  ultimately have nk1: "node_keys (buttons m1) = node_keys (buttons m)" using pn by simp
  with e show "node_keys (buttons m') = node_keys (buttons m)" by simp
  from e l2 pn show "threads_to_button_log m' = threads_to_button_log m @ [of_int (threads m') / of_int (p_n m)]"
    by simp
  from assms(1) have wf: "wf_graph (buttons m)" and ne: "node_keys (buttons m) \<noteq> []"
    by (auto simp: model_inv_def)
  from largest_cluster_total [OF wf ne] obtain a where a: "largest_cluster (buttons m) = Inr a" ..
  from inv1 have wf1: "wf_graph (buttons m1)" by (simp only: model_inv_def)
  from largest_cluster_mono [OF wf wf1 nk1 grow a b] have "a \<le> b" .
  moreover from b e have "largest_cluster (buttons m') = Inr b" by simp
  moreover from e l1 pn
  have "max_cluster_size_log m' = max_cluster_size_log m @ [of_int (int b) / of_int (p_n m)]" by simp
  ultimately
  show "\<exists>a b. largest_cluster (buttons m) = Inr a \<and> largest_cluster (buttons m') = Inr b \<and> a \<le> b \<and>
           max_cluster_size_log m' = max_cluster_size_log m @ [of_int (int b) / of_int (p_n m)]"
    using a by blast
qed

lemma sim_step_total:
  assumes "model_inv m" and "loop_bound m = Inr b" and "2 \<le> p_n m \<or> b \<le> 0"
  shows "\<exists>m'. sim_step m = Inr m'"
proof -
  let ?m0 = "m\<lparr>model_t := model_t m + 1\<rparr>"
  from assms(1) have inv0: "model_inv ?m0" by (simp add: model_inv_def)
  from assms(2) have it: "iterations m = nat b" by (rule iterations_eq)
  have "\<exists>m1. step_loop (iterations m) ?m0 = Inr m1"
  proof (cases "b \<le> 0")
    case True
    with it show ?thesis by simp
  next
    case False
    with assms(3) have "2 \<le> p_n ?m0" by simp
    from step_loop_total [OF inv0 this] show ?thesis .
  qed
  then obtain m1 where loop: "step_loop (iterations m) ?m0 = Inr m1" ..
  from step_loop_props [OF inv0 loop] have "model_inv m1" by simp
  from update_total [OF this] obtain m' where u: "update m1 = Inr m'" ..
  from assms(2) have "loop_bound ?m0 = Inr b" by simp
  from step_of_step_loop [OF this] loop have "step ?m0 = Inr m1" by simp
  with u show ?thesis by (simp add: sim_step_def)
qed

lemma sim_steps_invariant:
  assumes "sim_steps k m = Inr m'" and "P m" and "\<And>x y. P x \<Longrightarrow> sim_step x = Inr y \<Longrightarrow> P y"
  shows "P m'"
  using assms(1,2)
proof (induction k arbitrary: m)
  case 0
  then show ?case by simp
next
  case (Suc k)
  from Suc.prems(1) obtain m1 where s: "sim_step m = Inr m1" and r: "sim_steps k m1 = Inr m'"
    by (auto split: sum.splits)
  from assms(3) [OF Suc.prems(2) s] have "P m1" .
  from Suc.IH [OF r this] show ?case .
qed

lemma sim_setup_Inr:
  assumes "sim_setup m = Inr m'"
  shows "1 \<le> p_n m \<and> model_inv m' \<and> p_n m' = p_n m \<and> p_speed m' = p_speed m \<and> model_t m' = 0 \<and>
         threads m' = 0 \<and>
         buttons m' = \<lparr>node_keys = [0..<nat (p_n m)], adj = (\<lambda>_. {})\<rparr> \<and>
         max_cluster_size_log m' = max_cluster_size_log m @ [1 / of_int (p_n m)] \<and>
         threads_to_button_log m' = threads_to_button_log m @ [0]"
proof -
  let ?m0 = "setup_model (m\<lparr>model_t := 0\<rparr>)"
  from assms have u: "update ?m0 = Inr m'" by (simp add: sim_setup_def)
  have b0: "buttons ?m0 = \<lparr>node_keys = [0..<nat (p_n m)], adj = (\<lambda>_. {})\<rparr>"
    by (simp add: setup_model_buttons)
  from update_Inr [OF u] obtain a where a: "largest_cluster (buttons ?m0) = Inr a"
    and m': "m' = ?m0\<lparr>max_cluster_size_log := max_cluster_size_log ?m0 @ [of_int (int a) / of_int (p_n ?m0)],
                  threads_to_button_log := threads_to_button_log ?m0 @ [of_int (threads ?m0) / of_int (p_n ?m0)]\<rparr>"
    by blast
  from largest_cluster_nonempty [OF a] b0 have n: "1 \<le> p_n m" by simp
  then have inv0: "model_inv ?m0" by (simp add: setup_model_inv)
  from b0 n have "largest_cluster (buttons ?m0) = Inr 1"
    by (intro largest_cluster_isolated) simp_all
  with a have a1: "a = 1" by simp
  from m' have e: "buttons m' = buttons ?m0" "agents m' = agents ?m0" "p_n m' = p_n ?m0"
    "p_speed m' = p_speed ?m0" "model_t m' = model_t ?m0" "threads m' = threads ?m0"
    "max_cluster_size_log m' = max_cluster_size_log ?m0 @ [of_int (int a) / of_int (p_n ?m0)]"
    "threads_to_button_log m' = threads_to_button_log ?m0 @ [of_int (threads ?m0) / of_int (p_n ?m0)]"
    by simp_all
  from inv0 have "model_inv m'" unfolding model_inv_def e .
  with n e a1 b0 show ?thesis by (simp add: setup_model_frame)
qed

lemma sim_setup_total:
  assumes "1 \<le> p_n m"
  shows "\<exists>m'. sim_setup m = Inr m'"
proof -
  from assms have "model_inv (setup_model (m\<lparr>model_t := 0\<rparr>))" by (simp add: setup_model_inv)
  from update_total [OF this] show ?thesis by (simp add: sim_setup_def)
qed

lemma run_Inr:
  assumes "run n s rnd k = Inr m"
  shows "\<exists>m0. sim_setup (new_model n s rnd) = Inr m0 \<and> sim_steps k m0 = Inr m"
  using assms by (cases "sim_setup (new_model n s rnd)") (simp_all add: run_def)

lemma sim_steps_total:
  "model_inv m \<Longrightarrow> loop_bound m = Inr b \<Longrightarrow> 2 \<le> p_n m \<or> b \<le> 0 \<Longrightarrow>
   \<exists>m'. sim_steps k m = Inr m'"
proof (induction k arbitrary: m)
  case 0
  then show ?case by simp
next
  case (Suc k)
  from sim_step_total [OF Suc.prems] obtain m1 where s: "sim_step m = Inr m1" ..
  from sim_step_inv(1,2,3) [OF Suc.prems(1) s]
  have inv1: "model_inv m1" and "loop_bound m1 = loop_bound m" and pn: "p_n m1 = p_n m"
    by (simp_all add: loop_bound_def)
  with Suc.prems(2) have lb: "loop_bound m1 = Inr b" by simp
  from Suc.prems(3) pn have "2 \<le> p_n m1 \<or> b \<le> 0" by simp
  from Suc.IH [OF inv1 lb this] obtain m' where "sim_steps k m1 = Inr m'" ..
  with s show ?case by simp
qed

lemma run_total:
  assumes "1 \<le> n" and "int_of_product n s = Inr b" and "2 \<le> n \<or> b \<le> 0"
  shows "\<exists>m. run n s rnd k = Inr m"
proof -
  from assms(1) have "1 \<le> p_n (new_model n s rnd)" by (simp add: new_model_def)
  from sim_setup_total [OF this] obtain m0 where s: "sim_setup (new_model n s rnd) = Inr m0" ..
  from sim_setup_Inr [OF s] have inv: "model_inv m0" and pn: "p_n m0 = n" and "p_speed m0 = s"
    by (simp_all add: new_model_def)
  with assms(2) have lb: "loop_bound m0 = Inr b" by (simp add: loop_bound_def)
  from assms(3) pn have "2 \<le> p_n m0 \<or> b \<le> 0" by simp
  from sim_steps_total [OF inv lb this] obtain m where "sim_steps k m0 = Inr m" ..
  with s show ?thesis by (simp add: run_def)
qed

lemma run_total_no_step:
  assumes "1 \<le> n"
  shows "\<exists>m. run n s rnd 0 = Inr m"
proof -
  from assms(1) have "1 \<le> p_n (new_model n s rnd)" by (simp add: new_model_def)
  from sim_setup_total [OF this] show ?thesis by (auto simp: run_def)
qed

lemma run_loop_bound_error:
  assumes "1 \<le> n" and "int_of_product n s = Inl e"
  shows "run n s rnd (Suc k) = Inl e"
proof -
  from assms(1) have "1 \<le> p_n (new_model n s rnd)" by (simp add: new_model_def)
  from sim_setup_total [OF this] obtain m0 where s0: "sim_setup (new_model n s rnd) = Inr m0" ..
  from sim_setup_Inr [OF s0] have "p_n m0 = n" and "p_speed m0 = s" by (simp_all add: new_model_def)
  with assms(2) have "loop_bound (m0\<lparr>model_t := model_t m0 + 1\<rparr>) = Inl e"
    by (simp add: loop_bound_def)
  from step_loop_bound_error [OF this] have "sim_step m0 = Inl e" by (simp add: sim_step_def)
  with s0 show ?thesis by (simp add: run_def)
qed

lemma sim_steps_model_t:
  "model_inv m \<Longrightarrow> sim_steps k m = Inr m' \<Longrightarrow> model_t m' = model_t m + k"
proof (induction k arbitrary: m)
  case 0
  then show ?case by simp
next
  case (Suc k)
  from Suc.prems(2) obtain m1 where s: "sim_step m = Inr m1" and r: "sim_steps k m1 = Inr m'"
    by (auto split: sum.splits)
  from sim_step_inv(1,4) [OF Suc.prems(1) s] Suc.IH [OF _ r] show ?case by simp
qed

lemma run_inv:
  assumes "run n s rnd k = Inr m"
  shows "1 \<le> n \<and> model_inv m \<and> p_n m = n \<and> p_speed m = s \<and> model_t m = k"
proof -
  from run_Inr [OF assms] obtain m0 where s0: "sim_setup (new_model n s rnd) = Inr m0"
    and r: "sim_steps k m0 = Inr m" by blast
  from sim_setup_Inr [OF s0] have n: "1 \<le> n" and inv0: "model_inv m0" and "p_n m0 = n"
    and "p_speed m0 = s" and t0: "model_t m0 = 0"
    by (simp_all add: new_model_def)
  then have "model_inv m0 \<and> p_n m0 = n \<and> p_speed m0 = s" by simp
  with r have "model_inv m \<and> p_n m = n \<and> p_speed m = s"
  proof (rule sim_steps_invariant)
    fix x y
    assume "model_inv x \<and> p_n x = n \<and> p_speed x = s" and "sim_step x = Inr y"
    with sim_step_inv(1,2,3) [of x y] show "model_inv y \<and> p_n y = n \<and> p_speed y = s" by simp
  qed
  moreover from sim_steps_model_t [OF inv0 r] t0 have "model_t m = k" by simp
  ultimately show ?thesis using n by simp
qed

lemma sim_step_threads:
  assumes "sim_step m = Inr m'"
  shows "threads m' = threads m + int (iterations m)"
proof -
  from sim_step_Inr [OF assms] obtain m1 a where
    loop: "step_loop (iterations m) (m\<lparr>model_t := model_t m + 1\<rparr>) = Inr m1"
    and m': "m' = m1\<lparr>max_cluster_size_log := max_cluster_size_log m1 @ [of_int (int a) / of_int (p_n m1)],
                   threads_to_button_log := threads_to_button_log m1 @ [of_int (threads m1) / of_int (p_n m1)]\<rparr>"
    by blast
  from m' have "threads m' = threads m1" by simp
  with step_loop_threads [OF loop] show ?thesis by simp
qed

lemma sim_steps_threads_mono: "sim_steps k m = Inr m' \<Longrightarrow> threads m \<le> threads m'"
proof (induction k arbitrary: m)
  case 0
  then show ?case by simp
next
  case (Suc k)
  from Suc.prems obtain m1 where s: "sim_step m = Inr m1" and r: "sim_steps k m1 = Inr m'"
    by (auto split: sum.splits)
  from sim_step_threads [OF s] Suc.IH [OF r] show ?case by simp
qed

lemma step_Inr:
  assumes "model_inv m" and "step m = Inr m'"
  shows "model_inv m'" and "p_n m' = p_n m" and "node_keys (buttons m') = node_keys (buttons m)"
    and "agents m' = agents m"
proof -
  from step_loop_of_step(2) [OF assms(2)] have loop: "step_loop (iterations m) m = Inr m'" .
  from step_loop_props [OF assms(1) loop] show inv: "model_inv m'" and pn: "p_n m' = p_n m"
    by simp_all
  from inv have "node_keys (buttons m') = [0..<nat (p_n m')]" and "agents m' = [0..<nat (p_n m')]"
    by (simp_all only: model_inv_def)
  moreover from assms(1) have "node_keys (buttons m) = [0..<nat (p_n m)]" and "agents m = [0..<nat (p_n m)]"
    by (simp_all only: model_inv_def)
  ultimately show "node_keys (buttons m') = node_keys (buttons m)" and "agents m' = agents m"
    using pn by simp_all
qed

lemma update_frame:
  assumes "update m = Inr m'"
  shows "buttons m' = buttons m" and "threads m' = threads m" and "agents m' = agents m"
proof -
  from update_Inr [OF assms] obtain a where
    "m' = m\<lparr>max_cluster_size_log := max_cluster_size_log m @ [of_int (int a) / of_int (p_n m)],
           threads_to_button_log := threads_to_button_log m @ [of_int (threads m) / of_int (p_n m)]\<rparr>"
    by blast
  then show "buttons m' = buttons m" and "threads m' = threads m" and "agents m' = agents m"
    by simp_all
qed

lemma add_edge_existing:
  assumes "wf_graph g" and "has_edge g u v"
  shows "add_edge g u v = g"
proof -
  from assms(2) have u: "u \<in> set (node_keys g)" and vu: "v \<in> adj g u" by (simp_all add: has_edge_def)
  from assms(1) u vu have v: "v \<in> set (node_keys g)" and uv: "u \<in> adj g v"
    by (auto simp: wf_graph_def)
  have "adj (add_edge g u v) = adj g"
    using vu uv by (auto simp: add_edge_adj [OF u v] fun_eq_iff)
  moreover have "node_keys (add_edge g u v) = node_keys g" by (rule add_edge_node_keys [OF u v])
  ultimately show ?thesis by simp
qed

lemma sim_step_no_selfloop:
  assumes "model_inv m" and "\<not> has_selfloop (buttons m)" and "sim_step m = Inr m'"
  shows "\<not> has_selfloop (buttons m')"
proof -
  let ?m0 = "m\<lparr>model_t := model_t m + 1\<rparr>"
  from sim_step_Inr [OF assms(3)] obtain m1 a where
    loop: "step_loop (iterations m) ?m0 = Inr m1"
    and m': "m' = m1\<lparr>max_cluster_size_log := max_cluster_size_log m1 @ [of_int (int a) / of_int (p_n m1)],
                   threads_to_button_log := threads_to_button_log m1 @ [of_int (threads m1) / of_int (p_n m1)]\<rparr>"
    by blast
  from assms(1) have inv0: "model_inv ?m0" by (simp add: model_inv_def)
  from assms(2) have "\<not> has_selfloop (buttons ?m0)" by simp
  from step_loop_no_selfloop [OF inv0 this loop] m' show ?thesis by simp
qed

lemma run_no_selfloop:
  assumes "run n s rnd k = Inr m"
  shows "\<not> has_selfloop (buttons m)"
proof -
  from run_Inr [OF assms] obtain m0 where s0: "sim_setup (new_model n s rnd) = Inr m0"
    and r: "sim_steps k m0 = Inr m" by blast
  from sim_setup_Inr [OF s0] have "model_inv m0 \<and> \<not> has_selfloop (buttons m0)"
    by (simp add: has_selfloop_def)
  with r have "model_inv m \<and> \<not> has_selfloop (buttons m)"
  proof (rule sim_steps_invariant)
    fix x y
    assume "model_inv x \<and> \<not> has_selfloop (buttons x)" and "sim_step x = Inr y"
    with sim_step_inv(1) [of x y] sim_step_no_selfloop [of x y]
    show "model_inv y \<and> \<not> has_selfloop (buttons y)" by simp
  qed
  then show ?thesis by simp
qed

lemma run_single_button_fails:
  assumes "1 \<le> r" and "r < 2 ^ 53"
  shows "run 1 (Finite r) rnd (Suc k) = Inl ValueError"
proof -
  have "1 \<le> p_n (new_model 1 (Finite r) rnd)" by (simp add: new_model_def)
  from sim_setup_total [OF this] obtain m0 where s0: "sim_setup (new_model 1 (Finite r) rnd) = Inr m0" ..
  from sim_setup_Inr [OF s0] have inv: "model_inv m0" and pn: "p_n m0 = 1"
    and ps: "p_speed m0 = Finite r"
    by (simp_all add: new_model_def)
  let ?m1 = "m0\<lparr>model_t := model_t m0 + 1\<rparr>"
  from inv pn have ag: "agents ?m1 = [0]" by (simp add: model_inv_def)
  from assms have "0 \<le> r" and "of_int 1 * r < 2 ^ 53" by simp_all
  from int_of_product_bounds [OF _ _ this] obtain b where b: "int_of_product 1 (Finite r) = Inr b"
    and fb: "\<lfloor>r\<rfloor> \<le> b" by auto
  from assms(1) have "1 \<le> \<lfloor>r\<rfloor>" by simp
  from this fb have "1 \<le> b" by (rule order_trans)
  then have "0 < nat b" by simp
  then obtain j where j: "nat b = Suc j" by (cases "nat b") simp_all
  from b pn ps have lb: "loop_bound ?m1 = Inr b" by (simp add: loop_bound_def)
  from ag have "random2 ?m1 = Inl ValueError" by (simp add: random2_def)
  with j lb have "step ?m1 = Inl ValueError" by (simp add: step_def)
  then have "sim_step m0 = Inl ValueError" by (simp add: sim_step_def)
  with s0 show ?thesis by (simp add: run_def)
qed

lemma int_of_product_exact:
  assumes "1 \<le> n" and "n < 2 ^ 53" and "0 \<le> r" and "of_int n * r = of_int z" and "z < 2 ^ 53"
  shows "int_of_product n (Finite r) = Inr z"
proof -
  from assms(5) have "(of_int z :: rat) < 2 ^ 53" by (metis of_int_less_iff of_int_numeral of_int_power)
  with assms(4) have "of_int n * r < 2 ^ 53" by simp
  from int_of_product_bounds [OF assms(1,2,3) this] assms(4) show ?thesis by auto
qed

lemma run_threads_log:
  assumes "run n s rnd k = Inr m" and "int_of_product n s = Inr e" and "0 \<le> e"
  shows "threads m = int k * e \<and> length (threads_to_button_log m) = k + 1 \<and>
         (\<forall>j. j \<le> k \<longrightarrow> threads_to_button_log m ! j = of_nat j * of_int e / of_int n)"
proof -
  let ?P = "\<lambda>x. model_inv x \<and> p_n x = n \<and> p_speed x = s \<and> threads x = int (model_t x) * e \<and>
              length (threads_to_button_log x) = model_t x + 1 \<and>
              (\<forall>j. j \<le> model_t x \<longrightarrow> threads_to_button_log x ! j = of_nat j * of_int e / of_int n)"
  from run_Inr [OF assms(1)] obtain m0 where s0: "sim_setup (new_model n s rnd) = Inr m0"
    and r: "sim_steps k m0 = Inr m" by blast
  from sim_setup_Inr [OF s0] have "?P m0" by (simp add: new_model_def)
  with r have "?P m"
  proof (rule sim_steps_invariant)
    fix x y
    assume P: "?P x" and st: "sim_step x = Inr y"
    then have inv: "model_inv x" by simp
    note f = sim_step_inv [OF inv st]
    from P assms(2) have "loop_bound x = Inr e" by (simp add: loop_bound_def)
    with assms(3) have it: "int (iterations x) = e" by (simp add: iterations_def)
    from f(5) it P have th: "threads y = int (model_t x + 1) * e" by (simp add: algebra_simps)
    from f(7) P th
    have log: "threads_to_button_log y = threads_to_button_log x @ [of_int (int (model_t x + 1) * e) / of_int n]"
      by simp
    have "threads_to_button_log y ! j = of_nat j * of_int e / of_int n" if "j \<le> model_t x + 1" for j
    proof (cases "j \<le> model_t x")
      case True
      with P log show ?thesis by (simp add: nth_append)
    next
      case False
      with that have "j = model_t x + 1" by simp
      with P log show ?thesis by (simp add: nth_append)
    qed
    with f(1,2,3,4) P th log show "?P y" by simp
  qed
  moreover from run_inv [OF assms(1)] have "model_t m = k" by simp
  ultimately show ?thesis by simp
qed

lemma run_first_entry:
  assumes "run n s rnd k = Inr m"
  shows "length (threads_to_button_log m) = k + 1 \<and> threads_to_button_log m ! 0 = 0"
proof -
  let ?P = "\<lambda>x. model_inv x \<and> length (threads_to_button_log x) = model_t x + 1 \<and>
              threads_to_button_log x ! 0 = 0"
  from run_Inr [OF assms(1)] obtain m0 where s0: "sim_setup (new_model n s rnd) = Inr m0"
    and r: "sim_steps k m0 = Inr m" by blast
  from sim_setup_Inr [OF s0] have "?P m0" by (simp add: new_model_def)
  with r have "?P m"
  proof (rule sim_steps_invariant)
    fix x y
    assume P: "?P x" and st: "sim_step x = Inr y"
    then have inv: "model_inv x" by simp
    from sim_step_inv(1,4,7) [OF inv st] P show "?P y" by (simp add: nth_append)
  qed
  moreover from run_inv [OF assms(1)] have "model_t m = k" by simp
  ultimately show ?thesis by simp
qed

lemma run_steps_loop_bound:
  assumes "run n s rnd (Suc k) = Inr m"
  shows "\<exists>e. int_of_product n s = Inr e"
proof -
  from run_Inr [OF assms] obtain m0 where s0: "sim_setup (new_model n s rnd) = Inr m0"
    and r: "sim_steps (Suc k) m0 = Inr m" by blast
  from r obtain m1 where st: "sim_step m0 = Inr m1" by (auto split: sum.splits)
  from sim_step_Inr [OF st] obtain b where "loop_bound m0 = Inr b" by blast
  moreover from sim_setup_Inr [OF s0] have "p_n m0 = n" and "p_speed m0 = s"
    by (simp_all add: new_model_def)
  ultimately show ?thesis by (simp add: loop_bound_def)
qed

lemma step_total:
  assumes "model_inv m" and "loop_bound m = Inr b" and "2 \<le> p_n m \<or> b \<le> 0"
  shows "\<exists>m'. step m = Inr m'"
proof -
  have "\<exists>m'. step_loop (iterations m) m = Inr m'"
  proof (cases "b \<le> 0")
    case True
    with assms(2) show ?thesis by (simp add: iterations_def)
  next
    case False
    with assms(3) have "2 \<le> p_n m" by simp
    from step_loop_total [OF assms(1) this] show ?thesis .
  qed
  with step_of_step_loop [OF assms(2)] show ?thesis by simp
qed

lemma step_threads:
  assumes "step m = Inr m'"
  shows "\<exists>b. loop_bound m = Inr b \<and> threads m' = threads m + int (nat b)"
proof -
  from step_loop_of_step [OF assms] obtain b where b: "loop_bound m = Inr b"
    and loop: "step_loop (iterations m) m = Inr m'" by blast
  from step_loop_threads [OF loop] b show ?thesis by (simp add: iterations_def)
qed

lemma step_loop_one:
  assumes "step_loop (Suc 0) m = Inr m'"
  shows "threads m' = threads m + 1" and "\<exists>u v. buttons m' = add_edge (buttons m) u v"
proof -
  from assms obtain u v m1 where r: "random2 m = Inr ((u, v), m1)"
    and m': "m' = m1\<lparr>buttons := add_edge (buttons m1) u v, threads := threads m1 + 1\<rparr>"
    by (auto split: sum.splits)
  from random2_Inr(4) [OF r] have m1: "m1 = m\<lparr>rng := (\<lambda>i. rng m (i + 2))\<rparr>" .
  from m' m1 show "threads m' = threads m + 1" by simp
  from m' m1 have "buttons m' = add_edge (buttons m) u v" by simp
  then show "\<exists>u v. buttons m' = add_edge (buttons m) u v" by blast
qed

text \<open>The values of \<^verbatim>\<open>int(n * speed)\<close> that the examples below use.\<close>

lemma int_of_product_examples:
  "int_of_product 2 (Finite 1) = Inr 2"
  "int_of_product 3 (Finite 1) = Inr 3"
  "int_of_product 10 (Finite (1 / 2)) = Inr 5"
  "int_of_product 10 (Finite (3152519739159347 / 4503599627370496)) = Inr 7"
  "int_of_product 3 (Finite (6004799503160661 / 18014398509481984)) = Inr 1"
proof -
  show "int_of_product 2 (Finite 1) = Inr 2" by (rule int_of_product_exact) simp_all
  show "int_of_product 3 (Finite 1) = Inr 3" by (rule int_of_product_exact) simp_all
  show "int_of_product 10 (Finite (1 / 2)) = Inr 5" by (rule int_of_product_exact) simp_all
  have f10: "int_to_float 10 = Inr (Finite 10)" and f3: "int_to_float 3 = Inr (Finite 3)"
    using round_double_of_int [of 10] round_double_of_int [of 3] by (simp_all add: int_to_float_def)
  from f10 double_0_7(2)
  show "int_of_product 10 (Finite (3152519739159347 / 4503599627370496)) = Inr 7"
    by (simp add: int_of_product_def)
  from f3 double_third(2)
  show "int_of_product 3 (Finite (6004799503160661 / 18014398509481984)) = Inr 1"
    by (simp add: int_of_product_def)
qed

lemma add_edge_joins: "v \<in> adj (add_edge g u v) u"
  by (simp add: add_edge_def Let_def)

section \<open>The claims\<close>

text \<open>
  Claim C1 says that after \<open>k\<close> completed steps the recorded value is
  \<open>k * floor (n * s) / n\<close>. The speed \<^verbatim>\<open>0.7\<close> is the double
  \<open>3152519739159347 / 2^52\<close>, a little below \<open>7/10\<close>: ten times it is below 7 and its
  floor is 6, but the double product \<^verbatim>\<open>10 * 0.7\<close> is \<^verbatim>\<open>7.0\<close>, so the step adds 7
  and the value recorded after step 1 is \<open>7/10\<close>, not \<open>6/10\<close>.
\<close>

theorem threads_to_button_rounding_counterexample:
  "is_double (3152519739159347 / 4503599627370496) \<and>
   \<lfloor>10 * (3152519739159347 / 4503599627370496 :: rat)\<rfloor> = 6 \<and>
   (\<exists>m. run 10 (Finite (3152519739159347 / 4503599627370496)) (\<lambda>_. 0) 1 = Inr m \<and>
        threads m = 7 \<and> threads_to_button_log m ! 1 = 7 / 10)"
proof -
  have fl: "\<lfloor>10 * (3152519739159347 / 4503599627370496 :: rat)\<rfloor> = 6"
    by (rule floor_unique) simp_all
  note p = int_of_product_examples(4)
  have "\<exists>m. run 10 (Finite (3152519739159347 / 4503599627370496)) (\<lambda>_. 0) 1 = Inr m"
    by (rule run_total [OF _ p]) simp_all
  then obtain m where r: "run 10 (Finite (3152519739159347 / 4503599627370496)) (\<lambda>_. 0) 1 = Inr m" ..
  from run_threads_log [OF r p] have "threads m = 7" and "threads_to_button_log m ! 1 = 7 / 10"
    by simp_all
  with r fl double_0_7(1) show ?thesis by blast
qed

text \<open>
  Claim C1, amended. For a run with \<open>n \<ge> 1\<close> and speed \<open>s \<ge> 0\<close> that completes
  \<open>k\<close> steps, the series \<^verbatim>\<open>threads_to_button\<close> has \<open>k + 1\<close> entries and starts
  with 0; when \<open>k \<ge> 1\<close>, the counter is \<open>k * e\<close> and the entry recorded after step
  \<open>j\<close> is \<open>j * e / n\<close> for every \<open>j \<le> k\<close>, where \<open>e\<close> is \<^verbatim>\<open>int(n * speed)\<close>,
  the truncated double product. For \<open>n < 2^53\<close> and \<open>n * s < 2^53\<close> that \<open>e\<close> lies
  between \<open>floor (n * s)\<close> and \<open>ceiling (n * s)\<close>, and it is \<open>floor (n * s)\<close> when
  the exact product is itself a double, as in the example of the specification:
  \<open>n = 10\<close> and \<open>s = 1/2\<close> give \<open>e = 5\<close> and the value \<open>1/2\<close> after step 1.
\<close>

theorem threads_to_button_after_steps:
  assumes "1 \<le> n" and "py_ge0 s" and "run n s rnd k = Inr m"
  shows "length (threads_to_button_log m) = k + 1 \<and> threads_to_button_log m ! 0 = 0 \<and>
         (1 \<le> k \<longrightarrow>
           (\<exists>e. int_of_product n s = Inr e \<and> 0 \<le> e \<and> threads m = int k * e \<and>
                (\<forall>j. j \<le> k \<longrightarrow> threads_to_button_log m ! j = of_nat j * of_int e / of_int n) \<and>
                (\<forall>r. s = Finite r \<and> n < 2 ^ 53 \<and> of_int n * r < 2 ^ 53 \<longrightarrow>
                     \<lfloor>of_int n * r\<rfloor> \<le> e \<and> e \<le> \<lceil>of_int n * r\<rceil> \<and>
                     (is_double (of_int n * r) \<longrightarrow> e = \<lfloor>of_int n * r\<rfloor>))))"
proof -
  note first = run_first_entry [OF assms(3)]
  have "\<exists>e. int_of_product n s = Inr e \<and> 0 \<le> e \<and> threads m = int k * e \<and>
             (\<forall>j. j \<le> k \<longrightarrow> threads_to_button_log m ! j = of_nat j * of_int e / of_int n) \<and>
             (\<forall>r. s = Finite r \<and> n < 2 ^ 53 \<and> of_int n * r < 2 ^ 53 \<longrightarrow>
                  \<lfloor>of_int n * r\<rfloor> \<le> e \<and> e \<le> \<lceil>of_int n * r\<rceil> \<and>
                  (is_double (of_int n * r) \<longrightarrow> e = \<lfloor>of_int n * r\<rfloor>))"
    if k: "1 \<le> k"
  proof -
    from k obtain k' where "k = Suc k'" by (cases k) simp_all
    with assms(3) run_steps_loop_bound [of n s rnd k' m] obtain e where e: "int_of_product n s = Inr e"
      by auto
    from int_of_product_nonneg [OF assms(1,2) e] have e0: "0 \<le> e" .
    note log = run_threads_log [OF assms(3) e e0]
    have "\<lfloor>of_int n * r\<rfloor> \<le> e \<and> e \<le> \<lceil>of_int n * r\<rceil> \<and> (is_double (of_int n * r) \<longrightarrow> e = \<lfloor>of_int n * r\<rfloor>)"
      if h: "s = Finite r \<and> n < 2 ^ 53 \<and> of_int n * r < 2 ^ 53" for r
    proof -
      from h assms(2) have "0 \<le> r" by simp
      from int_of_product_bounds [OF assms(1) _ this, of ] h e show ?thesis by auto
    qed
    with e e0 log show ?thesis by blast
  qed
  with first show ?thesis by blast
qed

theorem threads_to_button_after_steps_witness:
  "\<exists>m. run 10 (Finite (1 / 2)) (\<lambda>_. 0) 1 = Inr m \<and> int_of_product 10 (Finite (1 / 2)) = Inr 5 \<and>
       threads m = 5 \<and> threads_to_button_log m ! 1 = 1 / 2"
proof -
  note p = int_of_product_examples(3)
  have "\<exists>m. run 10 (Finite (1 / 2)) (\<lambda>_. 0) 1 = Inr m" by (rule run_total [OF _ p]) simp_all
  then obtain m where r: "run 10 (Finite (1 / 2)) (\<lambda>_. 0) 1 = Inr m" ..
  have h: "(1::int) \<le> 10" "py_ge0 (Finite (1 / 2))" by simp_all
  from threads_to_button_after_steps [OF h r] obtain e where e: "int_of_product 10 (Finite (1 / 2)) = Inr e"
    and th: "threads m = int 1 * e"
    and lg: "\<forall>j. j \<le> 1 \<longrightarrow> threads_to_button_log m ! j = of_nat j * of_int e / of_int 10"
    by auto
  from e p have "e = 5" by simp
  with th lg [rule_format, of 1] have "threads m = 5" and "threads_to_button_log m ! 1 = 1 / 2"
    by simp_all
  with r p show ?thesis by blast
qed

text \<open>
  Claim C2 says that for \<open>n \<ge> 1\<close> and \<open>speed \<ge> 0\<close> no operation fails. With one
  button and speed 1 the first \<^verbatim>\<open>step\<close> raises \<^verbatim>\<open>ValueError\<close>:
  \<^verbatim>\<open>random(2)\<close> samples two agents without replacement from a list of one.
\<close>

theorem single_button_step_fails:
  "(case run 1 (Finite 1) (\<lambda>_. 0) 1 of Inl e \<Rightarrow> e = ValueError | Inr m \<Rightarrow> False)"
proof -
  have "run 1 (Finite 1) (\<lambda>_. 0) (Suc 0) = Inl ValueError"
    by (rule run_single_button_fails) simp_all
  then show ?thesis by simp
qed

text \<open>
  Claim C2, amended. For \<open>1 \<le> n < 2^53\<close> and a finite \<open>speed \<ge> 0\<close>: when
  \<open>n * speed < 2^1023\<close> (the double product is finite) and \<open>n \<ge> 2\<close> or
  \<open>n * speed < 1 - 2^(-54)\<close> (the double product is below 1), or when no step is asked
  for, the run (\<^verbatim>\<open>setup\<close>, the first \<^verbatim>\<open>update\<close>, then \<^verbatim>\<open>step\<close> and
  \<^verbatim>\<open>update\<close> for every time step) completes without an error, in a state that
  satisfies the invariant \<open>model_inv\<close>. When \<open>n = 1\<close> and \<open>1 \<le> speed < 2^53\<close>, a
  run of at least one step ends in \<^verbatim>\<open>ValueError\<close>; when \<open>n * speed \<ge> 2^1024\<close>, the
  double product is infinite and a run of at least one step ends in
  \<^verbatim>\<open>OverflowError\<close>.
\<close>

theorem run_never_fails:
  assumes "1 \<le> n" and "n < 2 ^ 53" and "0 \<le> r"
  shows "(of_int n * r < 2 ^ 1023 \<and> (2 \<le> n \<or> of_int n * r < 1 - 1 / 2 ^ 54) \<or> k = 0 \<longrightarrow>
            (\<exists>m. run n (Finite r) rnd k = Inr m \<and> model_inv m)) \<and>
         (n = 1 \<and> 1 \<le> r \<and> r < 2 ^ 53 \<longrightarrow> run n (Finite r) rnd (Suc k) = Inl ValueError) \<and>
         (2 ^ 1024 \<le> of_int n * r \<longrightarrow> run n (Finite r) rnd (Suc k) = Inl OverflowError)"
proof -
  have "\<exists>m. run n (Finite r) rnd k = Inr m \<and> model_inv m"
    if c: "of_int n * r < 2 ^ 1023 \<and> (2 \<le> n \<or> of_int n * r < 1 - 1 / 2 ^ 54) \<or> k = 0"
  proof -
    have "\<exists>m. run n (Finite r) rnd k = Inr m"
    proof (cases "k = 0")
      case True
      with run_total_no_step [OF assms(1)] show ?thesis by simp
    next
      case False
      with c have fin: "of_int n * r < 2 ^ 1023" and d: "2 \<le> n \<or> of_int n * r < 1 - 1 / 2 ^ 54"
        by simp_all
      show ?thesis
      proof (cases "2 \<le> n")
        case True
        from int_of_product_finite [OF assms fin] obtain b where "int_of_product n (Finite r) = Inr b"
          by blast
        from run_total [OF assms(1) this] True show ?thesis by simp
      next
        case False
        with d have "of_int n * r < 1 - 1 / 2 ^ 54" by simp
        from int_of_product_below_one [OF assms this] have "int_of_product n (Finite r) = Inr 0" .
        from run_total [OF assms(1) this] show ?thesis by simp
      qed
    qed
    then obtain m where r: "run n (Finite r) rnd k = Inr m" ..
    from run_inv [OF r] r show ?thesis by blast
  qed
  moreover have "run n (Finite r) rnd (Suc k) = Inl ValueError" if "n = 1 \<and> 1 \<le> r \<and> r < 2 ^ 53"
    using that run_single_button_fails [of r rnd k] by simp
  moreover have "run n (Finite r) rnd (Suc k) = Inl OverflowError" if "2 ^ 1024 \<le> of_int n * r"
    using run_loop_bound_error [OF assms(1) int_of_product_overflow [OF assms(1,2) that]] .
  ultimately show ?thesis by blast
qed

theorem run_never_fails_witness:
  "(\<exists>m. run 2 (Finite 1) (\<lambda>_. 0) 2 = Inr m \<and> model_inv m) \<and>
   run 1 (Finite 1) (\<lambda>_. 0) (Suc 0) = Inl ValueError \<and>
   run 2 (Finite (2 ^ 1023)) (\<lambda>_. 0) (Suc 0) = Inl OverflowError"
proof -
  have h2: "(1::int) \<le> 2" "(2::int) < 2 ^ 53" "(0::rat) \<le> 1" and h1: "(1::int) \<le> 1" "(1::int) < 2 ^ 53"
    and h3: "(0::rat) \<le> 2 ^ 1023"
    by simp_all
  have a: "of_int 2 * (1::rat) < 2 ^ 1023"
  proof -
    have "(2::rat) ^ 1 < 2 ^ 1023" by (rule power_strict_increasing) simp_all
    then show ?thesis by simp
  qed
  have b: "(2::rat) ^ 1024 \<le> of_int 2 * 2 ^ 1023" using power_add [of "2::rat" 1 1023] by simp
  from run_never_fails [OF h2, where k = 2 and rnd = "\<lambda>_. 0"] a
  have 1: "\<exists>m. run 2 (Finite 1) (\<lambda>_. 0) 2 = Inr m \<and> model_inv m" by simp
  from run_never_fails [OF h1 h2(3), where k = 0 and rnd = "\<lambda>_. 0"]
  have 2: "run 1 (Finite 1) (\<lambda>_. 0) (Suc 0) = Inl ValueError" by simp
  from run_never_fails [OF h2(1,2) h3, where k = 0 and rnd = "\<lambda>_. 0"] b
  have 3: "run 2 (Finite (2 ^ 1023)) (\<lambda>_. 0) (Suc 0) = Inl OverflowError" by blast
  from 1 2 3 show ?thesis by blast
qed

text \<open>
  Claim C3 says that the graph is a multigraph: an edge added between two nodes that are
  already joined still raises the edge count. With two buttons and speed 1, a
  \<^verbatim>\<open>step\<close> calls \<^verbatim>\<open>add_edge\<close> twice (the counter goes to 2) and the graph ends
  with one edge; iteration by iteration, the second call finds nodes 0 and 1 joined,
  adds 1 to the counter and leaves the edge count at 1.
\<close>

theorem duplicate_edge_counterexample:
  "(case step (setup_model (new_model 2 (Finite 1) (\<lambda>_. 0))) of
      Inl e \<Rightarrow> False
    | Inr m \<Rightarrow> threads m = 2 \<and> number_of_edges (buttons m) = 1) \<and>
   (case step_loop (Suc 0) (setup_model (new_model 2 (Finite 1) (\<lambda>_. 0))) of
      Inl e \<Rightarrow> False
    | Inr m1 \<Rightarrow> has_edge (buttons m1) 0 1 \<and> number_of_edges (buttons m1) = 1 \<and>
        (case step_loop (Suc 0) m1 of
           Inl e \<Rightarrow> False
         | Inr m2 \<Rightarrow> threads m2 = threads m1 + 1 \<and> number_of_edges (buttons m2) = 1))"
proof -
  have "loop_bound (setup_model (new_model 2 (Finite 1) (\<lambda>_. 0))) = Inr 2"
    by (simp add: loop_bound_def setup_model_frame new_model_def int_of_product_examples)
  then have st: "step (setup_model (new_model 2 (Finite 1) (\<lambda>_. 0))) =
      step_loop (Suc (Suc 0)) (setup_model (new_model 2 (Finite 1) (\<lambda>_. 0)))"
    by (simp add: step_def numeral_2_eq_2)
  show ?thesis unfolding st by code_simp
qed

text \<open>
  Claim C3, amended. The graph is a simple graph (\<^verbatim>\<open>ap.Network\<close> builds an
  \<^verbatim>\<open>nx.Graph\<close>): when an iteration of \<^verbatim>\<open>step\<close> draws two nodes that are already
  joined by an edge, \<^verbatim>\<open>add_edge\<close> leaves the graph as it is (the edge count does
  not change) and only the counter \<^verbatim>\<open>threads\<close> goes up by one.
\<close>

theorem duplicate_edge_not_retained:
  assumes "model_inv m" and "random2 m = Inr ((u, v), m1)" and "has_edge (buttons m) u v"
  shows "add_edge (buttons m) u v = buttons m \<and>
         (\<exists>m'. step_loop (Suc 0) m = Inr m' \<and> buttons m' = buttons m \<and>
               number_of_edges (buttons m') = number_of_edges (buttons m) \<and>
               threads m' = threads m + 1)"
proof -
  from assms(1) have "wf_graph (buttons m)" by (simp add: model_inv_def)
  from add_edge_existing [OF this assms(3)] have same: "add_edge (buttons m) u v = buttons m" .
  from random2_Inr(4) [OF assms(2)] have m1: "m1 = m\<lparr>rng := (\<lambda>i. rng m (i + 2))\<rparr>" .
  let ?m' = "m1\<lparr>buttons := add_edge (buttons m1) u v, threads := threads m1 + 1\<rparr>"
  from assms(2) have "step_loop (Suc 0) m = Inr ?m'" by simp
  moreover from m1 same have "buttons ?m' = buttons m" by simp
  moreover from m1 have "threads ?m' = threads m + 1" by simp
  ultimately show ?thesis using same by (intro conjI exI [of _ ?m']) simp_all
qed

theorem duplicate_edge_not_retained_witness:
  "\<exists>m m'. step_loop (Suc 0) (setup_model (new_model 2 (Finite 1) (\<lambda>_. 0))) = Inr m \<and>
      has_edge (buttons m) 0 1 \<and> step_loop (Suc 0) m = Inr m' \<and>
      buttons m' = buttons m \<and> threads m' = threads m + 1"
proof -
  let ?ini = "setup_model (new_model 2 (Finite 1) (\<lambda>_. 0))"
  have inv0: "model_inv ?ini" by (rule setup_model_inv) (simp add: new_model_def)
  have ag0: "agents ?ini = [0, 1]" by (simp add: setup_model_agents new_model_def upt_rec)
  have b0: "buttons ?ini = \<lparr>node_keys = [0, 1], adj = (\<lambda>_. {})\<rparr>"
    by (simp add: setup_model_buttons new_model_def upt_rec)
  have rng0: "rng ?ini = (\<lambda>_. 0)" by (simp add: setup_model_frame new_model_def)
  let ?drawn = "?ini\<lparr>rng := (\<lambda>i. rng ?ini (i + 2))\<rparr>"
  have r0: "random2 ?ini = Inr ((0, 1), ?drawn)" by (simp add: random2_def ag0 rng0 Let_def)
  let ?fst = "?drawn\<lparr>buttons := add_edge (buttons ?drawn) 0 1, threads := threads ?drawn + 1\<rparr>"
  from r0 have s0: "step_loop (Suc 0) ?ini = Inr ?fst" by simp
  from step_loop_props [OF inv0 s0] have inv: "model_inv ?fst" by (rule conjunct1)
  have e: "has_edge (buttons ?fst) 0 1" by (simp add: has_edge_def b0 add_edge_node_keys add_edge_adj)
  have r: "random2 ?fst = Inr ((0, 1), ?fst\<lparr>rng := (\<lambda>i. rng ?fst (i + 2))\<rparr>)"
    by (simp add: random2_def ag0 rng0 Let_def)
  from duplicate_edge_not_retained [OF inv r e] s0 e show ?thesis by blast
qed

text \<open>
  Claim C4 says that some parameters and some sequence of random draws make
  \<^verbatim>\<open>step\<close> add a self-loop. No run does: whatever \<open>n \<ge> 1\<close>, \<open>speed \<ge> 0\<close>, the
  random numbers and the number of steps, the graph of the final state has no self-loop.
\<close>

theorem no_run_has_selfloop:
  "\<not> (\<exists>n s rnd k m. 1 \<le> n \<and> py_ge0 s \<and> run n s rnd k = Inr m \<and> has_selfloop (buttons m))"
  using run_no_selfloop by blast

text \<open>
  Claim C4, amended. \<^verbatim>\<open>step\<close> never adds a self-loop: in a state of a run, the two
  nodes that \<^verbatim>\<open>random(2)\<close> returns are distinct for every state of the random
  generator (the sample is without replacement), and a \<^verbatim>\<open>step\<close> from a graph
  without self-loops ends in a graph without self-loops.
\<close>

theorem step_adds_no_selfloop:
  assumes "model_inv m"
  shows "(\<forall>u v m1. random2 m = Inr ((u, v), m1) \<longrightarrow> u \<noteq> v) \<and>
         (\<forall>m'. \<not> has_selfloop (buttons m) \<and> step m = Inr m' \<longrightarrow> \<not> has_selfloop (buttons m'))"
proof -
  from assms have d: "distinct (agents m)" by (simp add: model_inv_def)
  have "u \<noteq> v" if "random2 m = Inr ((u, v), m1)" for u v m1
    using random2_Inr(5) [OF that d] .
  moreover have "\<not> has_selfloop (buttons m')" if "\<not> has_selfloop (buttons m) \<and> step m = Inr m'" for m'
  proof -
    from that have "step m = Inr m'" by simp
    from step_loop_of_step(2) [OF this] have "step_loop (iterations m) m = Inr m'" .
    from step_loop_no_selfloop [OF assms _ this] that show ?thesis by simp
  qed
  ultimately show ?thesis by blast
qed

theorem step_adds_no_selfloop_witness:
  "\<exists>m'. step (setup_model (new_model 2 (Finite 1) (\<lambda>_. 0))) = Inr m' \<and> \<not> has_selfloop (buttons m')"
proof -
  let ?m = "setup_model (new_model 2 (Finite 1) (\<lambda>_. 0))"
  have inv: "model_inv ?m" by (rule setup_model_inv) (simp add: new_model_def)
  have lb: "loop_bound ?m = Inr 2"
    by (simp add: loop_bound_def setup_model_frame new_model_def int_of_product_examples)
  from step_total [OF inv lb] obtain m' where s: "step ?m = Inr m'"
    by (auto simp: setup_model_frame new_model_def)
  have "\<not> has_selfloop (buttons ?m)" by (simp add: has_selfloop_def setup_model_buttons)
  with step_adds_no_selfloop [OF inv] s show ?thesis by blast
qed

text \<open>
  Claim C5. For every \<open>n \<ge> 1\<close>, the update that runs after \<^verbatim>\<open>setup\<close> and before
  any step completes and records \<open>1 / n\<close> as \<^verbatim>\<open>max_cluster_size\<close>: every node
  is isolated, so every cluster is a single node. It stays the first entry of the series
  for the rest of the run.
\<close>

theorem first_max_cluster_size:
  assumes "1 \<le> n"
  shows "(\<exists>m. sim_setup (new_model n s rnd) = Inr m \<and> max_cluster_size_log m = [1 / of_int n]) \<and>
         (\<forall>k m. run n s rnd k = Inr m \<longrightarrow>
            max_cluster_size_log m \<noteq> [] \<and> max_cluster_size_log m ! 0 = 1 / of_int n)"
proof -
  from assms have "1 \<le> p_n (new_model n s rnd)" by (simp add: new_model_def)
  from sim_setup_total [OF this] obtain m0 where s0: "sim_setup (new_model n s rnd) = Inr m0" ..
  from sim_setup_Inr [OF s0] have inv0: "model_inv m0"
    and log0: "max_cluster_size_log m0 = [1 / of_int n]"
    by (simp_all add: new_model_def)
  let ?P = "\<lambda>x. model_inv x \<and> max_cluster_size_log x \<noteq> [] \<and> max_cluster_size_log x ! 0 = 1 / of_int n"
  have "max_cluster_size_log m \<noteq> [] \<and> max_cluster_size_log m ! 0 = 1 / of_int n"
    if r: "run n s rnd k = Inr m" for k m
  proof -
    from r s0 have steps: "sim_steps k m0 = Inr m" by (simp add: run_def)
    from inv0 log0 have "?P m0" by simp
    with steps have "?P m"
    proof (rule sim_steps_invariant)
      fix x y
      assume P: "?P x" and st: "sim_step x = Inr y"
      then have inv: "model_inv x" by simp
      from sim_step_inv(8) [OF inv st] obtain b where
        "max_cluster_size_log y = max_cluster_size_log x @ [of_int (int b) / of_int (p_n x)]"
        by blast
      with P sim_step_inv(1) [OF inv st] show "?P y" by (simp add: nth_append)
    qed
    then show ?thesis by simp
  qed
  with s0 log0 show ?thesis by blast
qed

theorem first_max_cluster_size_witness:
  "\<exists>m. sim_setup (new_model 4 (Finite (1 / 2)) (\<lambda>_. 0)) = Inr m \<and> max_cluster_size_log m = [1 / 4]"
proof -
  have h: "(1::int) \<le> 4" by simp
  from first_max_cluster_size [OF h, of "Finite (1 / 2)" "\<lambda>_. 0"] show ?thesis by simp
qed

text \<open>
  Claim C6. Within a run, the recorded \<^verbatim>\<open>max_cluster_size\<close> never goes down: the
  series has one entry per update (\<open>k + 1\<close> after \<open>k\<close> steps), and for any two
  updates \<open>i \<le> j\<close> of the run the value of the later one is at least the value of
  the earlier one. A step only adds neighbours, so a cluster found before the step lies
  inside a cluster found after it.
\<close>

theorem max_cluster_size_nondecreasing:
  assumes "run n s rnd k = Inr m" and "i \<le> j" and "j \<le> k"
  shows "length (max_cluster_size_log m) = k + 1 \<and>
         max_cluster_size_log m ! i \<le> max_cluster_size_log m ! j"
proof -
  let ?P = "\<lambda>x. model_inv x \<and> p_n x = n \<and> length (max_cluster_size_log x) = model_t x + 1 \<and>
              sorted (max_cluster_size_log x) \<and>
              (\<exists>a. largest_cluster (buttons x) = Inr a \<and>
                   (\<forall>v \<in> set (max_cluster_size_log x). v \<le> of_int (int a) / of_int n))"
  from run_Inr [OF assms(1)] obtain m0 where s0: "sim_setup (new_model n s rnd) = Inr m0"
    and r: "sim_steps k m0 = Inr m" by blast
  from run_inv [OF assms(1)] have n: "1 \<le> n" and t: "model_t m = k" by simp_all
  from sim_setup_Inr [OF s0] have inv0: "model_inv m0" and pn0: "p_n m0 = n" and t0: "model_t m0 = 0"
    and b0: "buttons m0 = \<lparr>node_keys = [0..<nat n], adj = (\<lambda>_. {})\<rparr>"
    and log0: "max_cluster_size_log m0 = [1 / of_int n]"
    by (simp_all add: new_model_def)
  from b0 n have "largest_cluster (buttons m0) = Inr 1"
    by (intro largest_cluster_isolated) simp_all
  with inv0 pn0 t0 log0 have "?P m0" by simp
  with r have "?P m"
  proof (rule sim_steps_invariant)
    fix x y
    assume P: "?P x" and st: "sim_step x = Inr y"
    then have inv: "model_inv x" and pn: "p_n x = n" by simp_all
    from P obtain a where a: "largest_cluster (buttons x) = Inr a"
      and bound: "\<forall>v \<in> set (max_cluster_size_log x). v \<le> of_int (int a) / of_int n" by blast
    from sim_step_inv(8) [OF inv st] a pn obtain b where b: "largest_cluster (buttons y) = Inr b"
      and ab: "a \<le> b"
      and log: "max_cluster_size_log y = max_cluster_size_log x @ [of_int (int b) / of_int n]"
      by auto
    from ab n have le: "(of_int (int a) :: rat) / of_int n \<le> of_int (int b) / of_int n"
      by (simp add: divide_right_mono)
    from bound le have bound': "\<forall>v \<in> set (max_cluster_size_log x). v \<le> of_int (int b) / of_int n"
      by (meson order_trans)
    with P log have "sorted (max_cluster_size_log y)" by (simp add: sorted_append)
    moreover from bound' log
    have "\<forall>v \<in> set (max_cluster_size_log y). v \<le> of_int (int b) / of_int n" by simp
    moreover from P log sim_step_inv(4) [OF inv st]
    have "length (max_cluster_size_log y) = model_t y + 1" by simp
    ultimately show "?P y" using sim_step_inv(1,2) [OF inv st] pn b by simp
  qed
  with t have len: "length (max_cluster_size_log m) = k + 1" and so: "sorted (max_cluster_size_log m)"
    by simp_all
  from so assms(2,3) len have "max_cluster_size_log m ! i \<le> max_cluster_size_log m ! j"
    by (simp add: sorted_nth_mono)
  with len show ?thesis by simp
qed

theorem max_cluster_size_nondecreasing_witness:
  "\<exists>m. run 2 (Finite 1) (\<lambda>_. 0) 2 = Inr m \<and> length (max_cluster_size_log m) = 3 \<and>
       max_cluster_size_log m ! 0 \<le> max_cluster_size_log m ! 2"
proof -
  have "\<exists>m. run 2 (Finite 1) (\<lambda>_. 0) 2 = Inr m" by (rule run_total [OF _ int_of_product_examples(1)]) simp_all
  then obtain m where r: "run 2 (Finite 1) (\<lambda>_. 0) 2 = Inr m" ..
  have h: "(0::nat) \<le> 2" "(2::nat) \<le> 2" by simp_all
  from max_cluster_size_nondecreasing [OF r h] r show ?thesis by simp
qed

text \<open>
  Claim C7. For every \<open>n \<ge> 1\<close>, \<^verbatim>\<open>setup\<close> creates exactly \<open>n\<close> isolated nodes
  (a graph with \<open>n\<close> distinct nodes, one per agent, no neighbours anywhere and zero
  edges) and sets the counter \<^verbatim>\<open>threads\<close> to zero.
\<close>

theorem setup_creates_isolated_nodes:
  assumes "1 \<le> p_n m"
  shows "int (length (node_keys (buttons (setup_model m)))) = p_n m \<and>
         distinct (node_keys (buttons (setup_model m))) \<and>
         agents (setup_model m) = node_keys (buttons (setup_model m)) \<and>
         (\<forall>v. adj (buttons (setup_model m)) v = {}) \<and>
         number_of_edges (buttons (setup_model m)) = 0 \<and>
         threads (setup_model m) = 0"
proof -
  have z: "sum_list (map (\<lambda>v. 0::nat) xs) = 0" for xs :: "nat list" by (induction xs) simp_all
  have d: "degree \<lparr>node_keys = ks, adj = (\<lambda>_. {})\<rparr> = (\<lambda>v. 0)" for ks
    by (simp add: fun_eq_iff degree_def)
  from assms show ?thesis
    by (simp add: setup_model_buttons setup_model_agents setup_model_frame number_of_edges_def d z)
qed

theorem setup_creates_isolated_nodes_witness:
  "length (node_keys (buttons (setup_model (new_model 3 (Finite (1 / 2)) (\<lambda>_. 0))))) = 3 \<and>
   number_of_edges (buttons (setup_model (new_model 3 (Finite (1 / 2)) (\<lambda>_. 0)))) = 0 \<and>
   threads (setup_model (new_model 3 (Finite (1 / 2)) (\<lambda>_. 0))) = 0"
proof -
  have h: "1 \<le> p_n (new_model 3 (Finite (1 / 2)) (\<lambda>_. 0))" by (simp add: new_model_def)
  from setup_creates_isolated_nodes [OF h] show ?thesis by (simp add: new_model_def)
qed

text \<open>
  Claim C8 says that each step increases the counter by exactly \<open>floor (n * speed)\<close>.
  With ten buttons and the double \<^verbatim>\<open>0.7\<close> (\<open>3152519739159347 / 2^52\<close>) that floor is
  6, and the step after \<^verbatim>\<open>setup\<close> adds 7: the double product \<^verbatim>\<open>10 * 0.7\<close> is
  \<^verbatim>\<open>7.0\<close>.
\<close>

theorem threads_increment_rounding_counterexample:
  "is_double (3152519739159347 / 4503599627370496) \<and>
   \<lfloor>10 * (3152519739159347 / 4503599627370496 :: rat)\<rfloor> = 6 \<and>
   (\<exists>m'. step (setup_model (new_model 10 (Finite (3152519739159347 / 4503599627370496)) (\<lambda>_. 0))) = Inr m' \<and>
         threads m' =
         threads (setup_model (new_model 10 (Finite (3152519739159347 / 4503599627370496)) (\<lambda>_. 0))) + 7)"
proof -
  let ?ini = "setup_model (new_model 10 (Finite (3152519739159347 / 4503599627370496)) (\<lambda>_. 0))"
  have fl: "\<lfloor>10 * (3152519739159347 / 4503599627370496 :: rat)\<rfloor> = 6"
    by (rule floor_unique) simp_all
  have inv: "model_inv ?ini" by (rule setup_model_inv) (simp add: new_model_def)
  have lb: "loop_bound ?ini = Inr 7"
    by (simp add: loop_bound_def setup_model_frame new_model_def int_of_product_examples)
  from step_total [OF inv lb] obtain m' where s: "step ?ini = Inr m'"
    by (auto simp: setup_model_frame new_model_def)
  from step_threads [OF s] lb have "threads m' = threads ?ini + 7" by simp
  with s fl double_0_7(1) show ?thesis by blast
qed

text \<open>
  Claim C8, amended. The counter \<^verbatim>\<open>threads\<close> is an integer that only grows:
  \<^verbatim>\<open>setup\<close> sets it to 0; one iteration of the loop of \<^verbatim>\<open>step\<close> makes one call
  of \<^verbatim>\<open>add_edge\<close> and adds 1, whether or not the call adds a new edge to the graph;
  a whole \<^verbatim>\<open>step\<close> (for \<open>n \<ge> 1\<close> and \<open>speed \<ge> 0\<close>) adds exactly \<open>e\<close>, the value
  of \<^verbatim>\<open>int(n * speed)\<close> on the double product, which for \<open>n < 2^53\<close> and
  \<open>n * speed < 2^53\<close> lies between \<open>floor (n * speed)\<close> and
  \<open>ceiling (n * speed)\<close> and is the floor when the exact product is a double;
  \<^verbatim>\<open>update\<close> leaves the counter alone, and over any number of simulation steps it
  never decreases. For \<open>n \<ge> 2\<close> a step from a state of a run returns whenever
  \<^verbatim>\<open>int(n * speed)\<close> does.
\<close>

theorem threads_counter_monotone:
  assumes "1 \<le> p_n m" and "py_ge0 (p_speed m)"
  shows "threads (setup_model m) = 0 \<and>
         (\<forall>m'. step_loop (Suc 0) m = Inr m' \<longrightarrow>
            threads m' = threads m + 1 \<and> (\<exists>u v. buttons m' = add_edge (buttons m) u v)) \<and>
         (\<forall>m'. step m = Inr m' \<longrightarrow>
            (\<exists>e. int_of_product (p_n m) (p_speed m) = Inr e \<and> 0 \<le> e \<and> threads m' = threads m + e)) \<and>
         (\<forall>r. p_speed m = Finite r \<and> p_n m < 2 ^ 53 \<and> of_int (p_n m) * r < 2 ^ 53 \<longrightarrow>
            (\<exists>e. int_of_product (p_n m) (p_speed m) = Inr e \<and>
                 \<lfloor>of_int (p_n m) * r\<rfloor> \<le> e \<and> e \<le> \<lceil>of_int (p_n m) * r\<rceil> \<and>
                 (is_double (of_int (p_n m) * r) \<longrightarrow> e = \<lfloor>of_int (p_n m) * r\<rfloor>))) \<and>
         (\<forall>e. model_inv m \<and> 2 \<le> p_n m \<and> int_of_product (p_n m) (p_speed m) = Inr e \<longrightarrow>
            (\<exists>m'. step m = Inr m')) \<and>
         (\<forall>m'. update m = Inr m' \<longrightarrow> threads m' = threads m) \<and>
         (\<forall>k m'. sim_steps k m = Inr m' \<longrightarrow> threads m \<le> threads m')"
proof -
  have "\<exists>e. int_of_product (p_n m) (p_speed m) = Inr e \<and> 0 \<le> e \<and> threads m' = threads m + e"
    if "step m = Inr m'" for m'
  proof -
    from step_threads [OF that] obtain b where b: "int_of_product (p_n m) (p_speed m) = Inr b"
      and th: "threads m' = threads m + int (nat b)" by (auto simp: loop_bound_def)
    from int_of_product_nonneg [OF assms b] have "0 \<le> b" .
    with b th show ?thesis by simp
  qed
  moreover have "threads m' = threads m + 1 \<and> (\<exists>u v. buttons m' = add_edge (buttons m) u v)"
    if "step_loop (Suc 0) m = Inr m'" for m'
    using step_loop_one [OF that] by simp
  moreover have "\<exists>e. int_of_product (p_n m) (p_speed m) = Inr e \<and>
                 \<lfloor>of_int (p_n m) * r\<rfloor> \<le> e \<and> e \<le> \<lceil>of_int (p_n m) * r\<rceil> \<and>
                 (is_double (of_int (p_n m) * r) \<longrightarrow> e = \<lfloor>of_int (p_n m) * r\<rfloor>)"
    if h: "p_speed m = Finite r \<and> p_n m < 2 ^ 53 \<and> of_int (p_n m) * r < 2 ^ 53" for r
  proof -
    from h assms(2) have "0 \<le> r" by simp
    from int_of_product_bounds [OF assms(1) _ this] h show ?thesis by simp
  qed
  moreover have "\<exists>m'. step m = Inr m'"
    if "model_inv m \<and> 2 \<le> p_n m \<and> int_of_product (p_n m) (p_speed m) = Inr e" for e
    using that step_total [of m e] by (simp add: loop_bound_def)
  moreover have "threads m' = threads m" if "update m = Inr m'" for m'
    using update_frame(2) [OF that] .
  moreover have "threads m \<le> threads m'" if "sim_steps k m = Inr m'" for k m'
    using sim_steps_threads_mono [OF that] .
  ultimately show ?thesis by (simp add: setup_model_frame)
qed

theorem threads_counter_monotone_witness:
  "\<exists>m'. step (setup_model (new_model 10 (Finite (1 / 2)) (\<lambda>_. 0))) = Inr m' \<and> threads m' = 5"
proof -
  let ?ini = "setup_model (new_model 10 (Finite (1 / 2)) (\<lambda>_. 0))"
  have h: "1 \<le> p_n ?ini" "py_ge0 (p_speed ?ini)" by (simp_all add: setup_model_frame new_model_def)
  have inv: "model_inv ?ini" by (rule setup_model_inv) (simp add: new_model_def)
  have n: "2 \<le> p_n ?ini" by (simp add: setup_model_frame new_model_def)
  have p: "int_of_product (p_n ?ini) (p_speed ?ini) = Inr 5"
    by (simp add: setup_model_frame new_model_def int_of_product_examples)
  note t = threads_counter_monotone [OF h]
  from t inv n p obtain m' where s: "step ?ini = Inr m'" by blast
  with t obtain e where "int_of_product (p_n ?ini) (p_speed ?ini) = Inr e"
    and "threads m' = threads ?ini + e" by blast
  with p have "threads m' = 5" by (simp add: setup_model_frame)
  with s show ?thesis by blast
qed

text \<open>
  Claim C9 says that \<^verbatim>\<open>step\<close> is a no-op whenever \<open>0 \<le> n * speed < 1\<close>. With three
  buttons and the double \<^verbatim>\<open>1 / 3\<close> (\<open>6004799503160661 / 2^54\<close>), three times the speed
  is below 1, but the double product \<^verbatim>\<open>3 * (1 / 3)\<close> is \<^verbatim>\<open>1.0\<close>: the step after
  \<^verbatim>\<open>setup\<close> calls \<^verbatim>\<open>add_edge\<close> once, so the counter goes up by one and the graph
  changes.
\<close>

theorem step_below_one_rounding_counterexample:
  "is_double (6004799503160661 / 18014398509481984) \<and>
   (0::rat) \<le> 3 * (6004799503160661 / 18014398509481984) \<and>
   (3::rat) * (6004799503160661 / 18014398509481984) < 1 \<and>
   (\<exists>m'. step (setup_model (new_model 3 (Finite (6004799503160661 / 18014398509481984)) (\<lambda>_. 0))) = Inr m' \<and>
         threads m' =
         threads (setup_model (new_model 3 (Finite (6004799503160661 / 18014398509481984)) (\<lambda>_. 0))) + 1 \<and>
         buttons m' \<noteq>
         buttons (setup_model (new_model 3 (Finite (6004799503160661 / 18014398509481984)) (\<lambda>_. 0))))"
proof -
  let ?ini = "setup_model (new_model 3 (Finite (6004799503160661 / 18014398509481984)) (\<lambda>_. 0))"
  have inv: "model_inv ?ini" by (rule setup_model_inv) (simp add: new_model_def)
  have lb: "loop_bound ?ini = Inr 1"
    by (simp add: loop_bound_def setup_model_frame new_model_def int_of_product_examples)
  from step_total [OF inv lb] obtain m' where s: "step ?ini = Inr m'"
    by (auto simp: setup_model_frame new_model_def)
  from step_loop_of_step(2) [OF s] lb have one: "step_loop (Suc 0) ?ini = Inr m'"
    by (simp add: iterations_def)
  from step_loop_one [OF one] obtain u v where th: "threads m' = threads ?ini + 1"
    and b: "buttons m' = add_edge (buttons ?ini) u v" by blast
  have "adj (buttons ?ini) u = {}" by (simp add: setup_model_buttons)
  with add_edge_joins [of v "buttons ?ini" u] b have "buttons m' \<noteq> buttons ?ini" by auto
  with s th double_third(1) show ?thesis by simp
qed

text \<open>
  Claim C9, amended. For every \<open>n\<close> with \<open>1 \<le> n < 2^53\<close> and every finite speed with
  \<open>0 \<le> n * speed < 1 - 2^(-54)\<close>, the double product \<^verbatim>\<open>n * speed\<close> is below 1, the
  loop bound \<^verbatim>\<open>int(n * speed)\<close> is 0 and \<^verbatim>\<open>step\<close> is a no-op: the state that
  comes back (graph, counter and all the rest) is the state that went in, even though
  the speed may be strictly positive.
\<close>

theorem step_without_edges_is_noop:
  assumes "1 \<le> p_n m" and "p_n m < 2 ^ 53" and "p_speed m = Finite r"
    and "0 \<le> of_int (p_n m) * r" and "of_int (p_n m) * r < 1 - 1 / 2 ^ 54"
  shows "loop_bound m = Inr 0 \<and> step m = Inr m"
proof -
  from assms(1) have "(0::rat) < of_int (p_n m)" by simp
  with assms(4) have "0 \<le> r" by (simp add: zero_le_mult_iff)
  from int_of_product_below_one [OF assms(1,2) this assms(5)] assms(3)
  have "loop_bound m = Inr 0" by (simp add: loop_bound_def)
  then show ?thesis by (simp add: step_def)
qed

theorem step_without_edges_is_noop_witness:
  "is_double (3602879701896397 / 72057594037927936) \<and>
   (0::rat) < 3602879701896397 / 72057594037927936 \<and>
   model_inv (setup_model (new_model 10 (Finite (3602879701896397 / 72057594037927936)) (\<lambda>_. 0))) \<and>
   step (setup_model (new_model 10 (Finite (3602879701896397 / 72057594037927936)) (\<lambda>_. 0))) =
     Inr (setup_model (new_model 10 (Finite (3602879701896397 / 72057594037927936)) (\<lambda>_. 0)))"
proof -
  let ?ini = "setup_model (new_model 10 (Finite (3602879701896397 / 72057594037927936)) (\<lambda>_. 0))"
  have inv: "model_inv ?ini" by (rule setup_model_inv) (simp add: new_model_def)
  have h: "1 \<le> p_n ?ini" "p_n ?ini < 2 ^ 53"
    "p_speed ?ini = Finite (3602879701896397 / 72057594037927936)"
    "0 \<le> of_int (p_n ?ini) * (3602879701896397 / 72057594037927936 :: rat)"
    "of_int (p_n ?ini) * (3602879701896397 / 72057594037927936 :: rat) < 1 - 1 / 2 ^ 54"
    by (simp_all add: setup_model_frame new_model_def)
  from step_without_edges_is_noop [OF h] inv double_0_05 show ?thesis by simp
qed

text \<open>
  Claim C10. The node set of a run is fixed by \<^verbatim>\<open>setup\<close>: it is the \<open>n\<close> nodes
  created there, one per agent, after any number of steps; a further \<^verbatim>\<open>step\<close> and a
  further \<^verbatim>\<open>update\<close> neither add nor remove a node.
\<close>

theorem node_set_fixed:
  assumes "run n s rnd k = Inr m"
  shows "node_keys (buttons (setup_model (new_model n s rnd))) = [0..<nat n] \<and>
         node_keys (buttons m) = [0..<nat n] \<and> agents m = [0..<nat n] \<and>
         (\<forall>m'. step m = Inr m' \<longrightarrow> node_keys (buttons m') = node_keys (buttons m)) \<and>
         (\<forall>m'. update m = Inr m' \<longrightarrow> node_keys (buttons m') = node_keys (buttons m))"
proof -
  from run_inv [OF assms] have inv: "model_inv m" and pn: "p_n m = n" by simp_all
  from inv pn have "node_keys (buttons m) = [0..<nat n]" and "agents m = [0..<nat n]"
    by (simp_all add: model_inv_def)
  moreover have "node_keys (buttons m') = node_keys (buttons m)" if "step m = Inr m'" for m'
    using step_Inr(3) [OF inv that] .
  moreover have "node_keys (buttons m') = node_keys (buttons m)" if "update m = Inr m'" for m'
    using update_frame(1) [OF that] by simp
  moreover have "node_keys (buttons (setup_model (new_model n s rnd))) = [0..<nat n]"
    by (simp add: setup_model_buttons new_model_def)
  ultimately show ?thesis by simp
qed

theorem node_set_fixed_witness:
  "\<exists>m. run 3 (Finite 1) (\<lambda>i. i) 2 = Inr m \<and> node_keys (buttons m) = [0, 1, 2] \<and>
       (\<exists>m'. step m = Inr m' \<and> node_keys (buttons m') = [0, 1, 2])"
proof -
  have "\<exists>m. run 3 (Finite 1) (\<lambda>i. i) 2 = Inr m" by (rule run_total [OF _ int_of_product_examples(2)]) simp_all
  then obtain m where r: "run 3 (Finite 1) (\<lambda>i. i) 2 = Inr m" ..
  note f = node_set_fixed [OF r]
  from f have nk: "node_keys (buttons m) = [0, 1, 2]" by (simp add: upt_rec)
  from run_inv [OF r] have inv: "model_inv m" and pn: "p_n m = 3" and ps: "p_speed m = Finite 1"
    by simp_all
  then have lb: "loop_bound m = Inr 3" by (simp add: loop_bound_def int_of_product_examples)
  from step_total [OF inv lb] pn obtain m' where s: "step m = Inr m'" by auto
  with f nk have "node_keys (buttons m') = [0, 1, 2]" by simp
  with r nk s show ?thesis by blast
qed

end
